theory Spec2Isabelle
  imports Main "HOL-Library.Char_ord" "HOL-Library.List_Lexorder" "HOL-Library.Product_Lexorder"
begin

section \<open>Python built-ins used by the sources\<close>

text \<open>
  Tokens and texts are Python \<open>str\<close> values, modelled as \<open>string\<close> (characters are code
  points below 256). Positions are Python integers, modelled as \<open>int\<close>. Every \<open>raise\<close> of
  the sources is a value of \<open>error\<close>:
  \<^item> \<open>RangeError\<close>: \<open>ValueError("Start positition ... should not greater than end position ...")\<close>;
  \<^item> \<open>OverlapError\<close>: the class \<open>OverlapError(ValueError)\<close>;
  \<^item> \<open>NotFoundError\<close>: \<open>ValueError("... is not in the list")\<close>;
  \<^item> \<open>MismatchError\<close>: \<open>ValueError("Cannot combine with text from different original text")\<close>;
  \<^item> \<open>ArgumentError\<close>: \<open>ValueError("Unknown on_overlap action: ...")\<close> and the arity check of \<open>filter_annotations\<close>;
  \<^item> \<open>IndexError\<close> and \<open>AttributeError\<close>: the interpreter's own exceptions.
\<close>

datatype error =
  RangeError | OverlapError | NotFoundError | MismatchError | ArgumentError
  | IndexError | AttributeError

text \<open>A slice bound as Python normalises it: a negative bound counts from the end, and
  every bound is clipped to \<open>0..len\<close>.\<close>

definition clamp_index :: "int \<Rightarrow> int \<Rightarrow> int" where
  "clamp_index i n = (if i < 0 then max 0 (i + n) else min i n)"

text \<open>\<open>t[i:j]\<close>\<close>

definition py_slice :: "'a list \<Rightarrow> int \<Rightarrow> int \<Rightarrow> 'a list" where
  "py_slice t i j =
     (let n = int (length t); lo = clamp_index i n; hi = clamp_index j n
      in take (nat (hi - lo)) (drop (nat lo) t))"

text \<open>\<open>t[i:]\<close>\<close>

definition py_slice_from :: "'a list \<Rightarrow> int \<Rightarrow> 'a list" where
  "py_slice_from t i = drop (nat (clamp_index i (int (length t)))) t"

text \<open>\<open>xs[i]\<close>: a negative index counts from the end; out of range raises \<open>IndexError\<close>.\<close>

definition py_index :: "'a list \<Rightarrow> int \<Rightarrow> error + 'a" where
  "py_index xs i =
     (if 0 \<le> i \<and> i < int (length xs) then Inr (xs ! nat i)
      else if i < 0 \<and> - int (length xs) \<le> i then Inr (xs ! nat (int (length xs) + i))
      else Inl IndexError)"

text \<open>\<open>sep.join(xs)\<close>\<close>

fun str_join :: "string \<Rightarrow> string list \<Rightarrow> string" where
  "str_join sep [] = []"
| "str_join sep [x] = x"
| "str_join sep (x # y # ys) = x @ sep @ str_join sep (y # ys)"

text \<open>\<open>s.split(c)\<close> for a one-character separator: every occurrence of the separator
  cuts, so the empty string gives one empty piece and two adjacent separators give an
  empty piece between them.\<close>

fun str_split :: "char \<Rightarrow> string \<Rightarrow> string list" where
  "str_split c [] = [[]]"
| "str_split c (x # xs) =
     (if x = c then [] # str_split c xs
      else (case str_split c xs of
              [] \<Rightarrow> [[x]]
            | w # ws \<Rightarrow> (x # w) # ws))"

text \<open>\<open>c.isspace()\<close> on the code points below 256.\<close>

definition is_space :: "char \<Rightarrow> bool" where
  "is_space c = (c \<in> set [CHR 0x09, CHR 0x0A, CHR 0x0B, CHR 0x0C, CHR 0x0D,
                             CHR 0x1C, CHR 0x1D, CHR 0x1E, CHR 0x1F, CHR 0x20,
                             CHR 0x85, CHR 0xA0])"

text \<open>\<open>s.split()\<close>: cuts at runs of whitespace and yields no empty piece. The first
  argument is the piece being read.\<close>

fun split_ws_loop :: "string \<Rightarrow> string \<Rightarrow> string list" where
  "split_ws_loop cur [] = (if cur = [] then [] else [cur])"
| "split_ws_loop cur (c # cs) =
     (if is_space c then (if cur = [] then split_ws_loop [] cs else cur # split_ws_loop [] cs)
      else split_ws_loop (cur @ [c]) cs)"

definition str_split_ws :: "string \<Rightarrow> string list" where
  "str_split_ws s = split_ws_loop [] s"

text \<open>\<open>s.strip()\<close>\<close>

definition str_strip :: "string \<Rightarrow> string" where
  "str_strip s = rev (dropWhile is_space (rev (dropWhile is_space s)))"

fun starts_with :: "string \<Rightarrow> string \<Rightarrow> bool" where
  "starts_with [] s = True"
| "starts_with (p # ps) [] = False"
| "starts_with (p # ps) (c # cs) = (p = c \<and> starts_with ps cs)"

text \<open>\<open>sub in s\<close> on strings\<close>

fun str_contains :: "string \<Rightarrow> string \<Rightarrow> bool" where
  "str_contains sub [] = (sub = [])"
| "str_contains sub (c # cs) = (starts_with sub (c # cs) \<or> str_contains sub cs)"

text \<open>A Python \<open>dict\<close> with string keys keeps its keys in insertion order: an association
  list. \<open>d[k] = v\<close> overwrites the value of a key in place and appends a new key.\<close>

type_synonym dict = "(string \<times> string) list"

fun dict_set :: "dict \<Rightarrow> string \<Rightarrow> string \<Rightarrow> dict" where
  "dict_set [] k v = [(k, v)]"
| "dict_set ((k', v') # d) k v = (if k' = k then (k, v) # d else (k', v') # dict_set d k v)"

text \<open>\<open>{**d1, **d2}\<close>\<close>

definition dict_merge :: "dict \<Rightarrow> dict \<Rightarrow> dict" where
  "dict_merge d1 d2 = foldl (\<lambda>d (k, v). dict_set d k v) d1 d2"

text \<open>An argument that is either a string or a list of tokens.\<close>

datatype str_or_list = Str string | Toks "string list"

section \<open>annotated\_tokens.py: MutableTokens\<close>

definition NO_SUGGESTIONS :: string where
  "NO_SUGGESTIONS = ''NO_SUGGESTIONS''"

record mutable_tokens =
  mt_tokens :: "string list"
  mt_edits :: "(int \<times> int \<times> string) list"

definition MutableTokens :: "str_or_list \<Rightarrow> mutable_tokens" where
  "MutableTokens tokens_arg =
     \<lparr>mt_tokens = (case tokens_arg of
                     Str s \<Rightarrow> str_split (CHR '' '') (str_strip s)
                   | Toks ts \<Rightarrow> ts),
      mt_edits = []\<rparr>"

definition replace :: "int \<Rightarrow> int \<Rightarrow> string \<Rightarrow> mutable_tokens \<Rightarrow> mutable_tokens" where
  "replace start en val mt = mt\<lparr>mt_edits := mt_edits mt @ [(start, en, val)]\<rparr>"

text \<open>The loop of \<open>get_edited_tokens\<close> over the sorted edits: \<open>i\<close> is the position
  reached in the source tokens, \<open>result\<close> the tokens produced so far.\<close>

fun edited_loop ::
  "string list \<Rightarrow> bool \<Rightarrow> (int \<times> int \<times> string) list \<Rightarrow> int \<Rightarrow> string list \<Rightarrow> string list"
where
  "edited_loop t highlight [] i result = result @ py_slice_from t i"
| "edited_loop t highlight ((bgn, en, val) # rest) i result =
     (let result1 = result @ py_slice t i bgn;
          result2 =
            (if \<not> highlight \<and> str_contains ''NO_SUGGESTIONS'' val
               then result1 @ py_slice t bgn en
             else if val \<noteq> [] then result1 @ str_split (CHR '' '') val
             else result1)
      in edited_loop t highlight rest en result2)"

definition get_edited_tokens :: "bool \<Rightarrow> mutable_tokens \<Rightarrow> string list" where
  "get_edited_tokens highlight mt =
     edited_loop (mt_tokens mt) highlight
       (sort_key (\<lambda>(bgn, en, val). (bgn, en)) (mt_edits mt)) 0 []"

definition get_edited_text :: "bool \<Rightarrow> mutable_tokens \<Rightarrow> string" where
  "get_edited_text highlight mt = str_join '' '' (get_edited_tokens highlight mt)"

definition apply_edits :: "mutable_tokens \<Rightarrow> mutable_tokens" where
  "apply_edits mt = \<lparr>mt_tokens = get_edited_tokens False mt, mt_edits = []\<rparr>"

section \<open>annotated\_tokens.py: TokenAnnotation\<close>

record annotation =
  ann_start :: int
  ann_end :: int
  source_text :: string
  suggestions :: "string list"
  meta :: dict

text \<open>\<open>TokenAnnotation.__eq__\<close>: the metadata are compared as sorted item tuples.\<close>

definition ann_eq :: "annotation \<Rightarrow> annotation \<Rightarrow> bool" where
  "ann_eq self other =
     (ann_start self = ann_start other
      \<and> ann_end self = ann_end other
      \<and> source_text self = source_text other
      \<and> suggestions self = suggestions other
      \<and> sort (meta self) = sort (meta other))"

definition format_meta :: "annotation \<Rightarrow> string" where
  "format_meta self = concat (map (\<lambda>(k, v). '':::'' @ k @ ''='' @ v) (meta self))"

definition to_str :: "bool \<Rightarrow> annotation \<Rightarrow> string" where
  "to_str with_meta self =
     (let repl = (if suggestions self \<noteq> [] then str_join ''|'' (suggestions self)
                  else NO_SUGGESTIONS);
          meta_text = (if with_meta then format_meta self else [])
      in ''{'' @ source_text self @ ''=>'' @ repl @ meta_text @ ''}'')"

text \<open>\<open>_unique_list\<close>: the loop appends an element that is not yet in \<open>res\<close>.\<close>

fun unique_loop :: "'a list \<Rightarrow> 'a list \<Rightarrow> 'a list" where
  "unique_loop res [] = res"
| "unique_loop res (x # xs) = (if x \<notin> set res then unique_loop (res @ [x]) xs else unique_loop res xs)"

definition unique_list :: "'a list \<Rightarrow> 'a list" where
  "unique_list array = unique_loop [] array"

definition strictly_inside :: "int \<Rightarrow> int \<Rightarrow> int \<Rightarrow> int \<Rightarrow> bool" where
  "strictly_inside a b x y = (x < a \<and> a \<le> b \<and> b < y)"

fun span_intersect_loop :: "nat \<Rightarrow> (int \<times> int) list \<Rightarrow> int \<Rightarrow> int \<Rightarrow> int" where
  "span_intersect_loop index [] bgn en = - 1"
| "span_intersect_loop index ((b, e) # spans) bgn en =
     (let overlap = max 0 (min en e - max bgn b)
      in if overlap \<noteq> 0 then int index
         else if strictly_inside b e bgn en then int index
         else if strictly_inside bgn en b e then int index
         else span_intersect_loop (Suc index) spans bgn en)"

definition span_intersect :: "(int \<times> int) list \<Rightarrow> int \<Rightarrow> int \<Rightarrow> int" where
  "span_intersect spans bgn en = span_intersect_loop 0 spans bgn en"

section \<open>annotated\_tokens.py: AnnotatedTokens\<close>

record annotated_tokens =
  tokens :: "string list"
  annotations :: "annotation list"

definition AnnotatedTokens :: "str_or_list \<Rightarrow> annotated_tokens" where
  "AnnotatedTokens tokens_arg =
     \<lparr>tokens = (case tokens_arg of Str s \<Rightarrow> str_split (CHR '' '') s | Toks ts \<Rightarrow> ts),
      annotations = []\<rparr>"

text \<open>A method that mutates the buffer returns the buffer it leaves behind: \<open>Done\<close> when
  it returns, \<open>Raised\<close> with the exception and the buffer as it stands when the exception
  leaves the method.\<close>

datatype outcome = Done annotated_tokens | Raised error annotated_tokens

fun state_of :: "outcome \<Rightarrow> annotated_tokens" where
  "state_of (Done buf) = buf"
| "state_of (Raised e buf) = buf"

text \<open>The argument \<open>correct_value\<close> of \<open>annotate\<close>: a string, \<open>None\<close> or an iterable of
  strings.\<close>

datatype correct_value = SuggStr string | SuggNone | SuggList "string list"

text \<open>The argument \<open>on_overlap\<close> of \<open>annotate\<close>: a member of the enumeration \<open>OnOverlap\<close>
  (or the string equal to it), a callable, or any other value.\<close>

datatype on_overlap =
  ERROR | OVERRIDE | SAVE_OLD | MERGE_STRICT | MERGE_EXPAND
  | Handler "annotated_tokens \<Rightarrow> annotation list \<Rightarrow> annotation \<Rightarrow> outcome"
  | OtherValue string

definition get_overlaps :: "annotated_tokens \<Rightarrow> int \<Rightarrow> int \<Rightarrow> annotation list" where
  "get_overlaps self start en =
     filter (\<lambda>ann. span_intersect [(ann_start ann, ann_end ann)] start en \<noteq> - 1
                   \<or> (start = en \<and> ann_start ann = ann_end ann \<and> start = ann_start ann))
            (annotations self)"

text \<open>\<open>list.remove(x)\<close>: drops the first item that is equal to \<open>x\<close>; \<open>None\<close> is the
  \<open>ValueError\<close> of a list with no such item.\<close>

fun list_remove :: "annotation list \<Rightarrow> annotation \<Rightarrow> annotation list option" where
  "list_remove [] x = None"
| "list_remove (y # ys) x =
     (if ann_eq y x then Some ys else map_option ((#) y) (list_remove ys x))"

definition remove_ann :: "annotation \<Rightarrow> annotated_tokens \<Rightarrow> outcome" where
  "remove_ann annotation self =
     (case list_remove (annotations self) annotation of
        None \<Rightarrow> Raised NotFoundError self
      | Some anns \<Rightarrow> Done (self\<lparr>annotations := anns\<rparr>))"

text \<open>The loop \<open>for ann in overlapping: self.remove(ann)\<close> of the \<open>override\<close> policy.\<close>

fun remove_each :: "annotation list \<Rightarrow> annotated_tokens \<Rightarrow> outcome" where
  "remove_each [] self = Done self"
| "remove_each (ann # rest) self =
     (case remove_ann ann self of
        Raised e self' \<Rightarrow> Raised e self'
      | Done self' \<Rightarrow> remove_each rest self')"

text \<open>The attribute \<open>_text\<close> that \<open>merge_expand\<close> reads on the buffer:
  \<open>AnnotatedTokens.__init__\<close> sets \<open>_annotations\<close> and \<open>_tokens\<close> only and the class has
  no attribute or property of that name, so the read raises \<open>AttributeError\<close>.\<close>

definition attr_text :: "annotated_tokens \<Rightarrow> error + string" where
  "attr_text self = Inl AttributeError"

text \<open>How \<open>annotate\<close> normalises its arguments \<open>correct_value\<close> and \<open>meta\<close>.\<close>

definition suggestions_of :: "correct_value \<Rightarrow> string list" where
  "suggestions_of correct = (case correct of SuggStr s \<Rightarrow> [s] | SuggNone \<Rightarrow> [] | SuggList l \<Rightarrow> l)"

definition meta_of :: "dict option \<Rightarrow> dict" where
  "meta_of meta_arg = (case meta_arg of None \<Rightarrow> [] | Some m \<Rightarrow> m)"

function annotate ::
    "int \<Rightarrow> int \<Rightarrow> correct_value \<Rightarrow> dict option \<Rightarrow> on_overlap \<Rightarrow> annotated_tokens \<Rightarrow> outcome"
  and merge_strict :: "annotated_tokens \<Rightarrow> annotation list \<Rightarrow> annotation \<Rightarrow> outcome"
  and merge_expand :: "annotated_tokens \<Rightarrow> annotation list \<Rightarrow> annotation \<Rightarrow> outcome"
where
  "annotate start en correct meta_arg policy self =
     (if start > en then Raised RangeError self
      else
        let meta_v = meta_of meta_arg;
            bad = str_join '' '' (py_slice (tokens self) start en);
            suggs = suggestions_of correct;
            new_ann = \<lparr>ann_start = start, ann_end = en, source_text = bad,
                       suggestions = suggs, meta = meta_v\<rparr>;
            overlapping = get_overlaps self start en
        in if overlapping \<noteq> [] then
             (case policy of
                Handler h \<Rightarrow> h self overlapping new_ann
              | SAVE_OLD \<Rightarrow> Done self
              | OVERRIDE \<Rightarrow>
                  (case remove_each overlapping self of
                     Raised e self' \<Rightarrow> Raised e self'
                   | Done self' \<Rightarrow> Done (self'\<lparr>annotations := annotations self' @ [new_ann]\<rparr>))
              | ERROR \<Rightarrow> Raised OverlapError self
              | MERGE_STRICT \<Rightarrow> merge_strict self overlapping new_ann
              | MERGE_EXPAND \<Rightarrow> merge_expand self overlapping new_ann
              | OtherValue v \<Rightarrow> Raised ArgumentError self)
           else Done (self\<lparr>annotations := annotations self @ [new_ann]\<rparr>))"
| "merge_strict txt overlapping new_ann =
     (if length overlapping > 1 then Raised OverlapError txt
      else case overlapping of
        [] \<Rightarrow> Raised IndexError txt
      | existing # others \<Rightarrow>
          if ann_start existing \<noteq> ann_start new_ann \<or> ann_end existing \<noteq> ann_end new_ann
            then Raised OverlapError txt
          else
            let suggs = unique_list (suggestions existing @ suggestions new_ann);
                meta_v = dict_merge (meta existing) (meta new_ann)
            in (case remove_ann existing txt of
                  Raised e txt' \<Rightarrow> Raised e txt'
                | Done txt' \<Rightarrow>
                    annotate (ann_start new_ann) (ann_end new_ann) (SuggList suggs)
                      (Some meta_v) ERROR txt'))"
| "merge_expand txt overlapping new_ann =
     (if length overlapping > 1 then Raised OverlapError txt
      else case overlapping of
        [] \<Rightarrow> Raised IndexError txt
      | existing # others \<Rightarrow>
          let start = min (ann_start existing) (ann_start new_ann);
              en = max (ann_end existing) (ann_end new_ann)
          in (case attr_text txt of
                Inl e \<Rightarrow> Raised e txt
              | Inr text_v \<Rightarrow>
                  let suggs = unique_list (concat (map
                        (\<lambda>ann. map (\<lambda>sugg. py_slice text_v start (ann_start ann) @ sugg
                                               @ py_slice text_v (ann_end ann) en)
                                   (suggestions ann))
                        [existing, new_ann]));
                      meta_v = dict_merge (meta existing) (meta new_ann)
                  in (case remove_ann existing txt of
                        Raised e txt' \<Rightarrow> Raised e txt'
                      | Done txt' \<Rightarrow>
                          annotate start en (SuggList suggs) (Some meta_v) ERROR txt')))"
  by pat_completeness auto
termination
  by (relation "measure (\<lambda>x. case x of
        Inl (start, en, correct, meta_arg, policy, self) \<Rightarrow>
          (case policy of MERGE_STRICT \<Rightarrow> 2 | MERGE_EXPAND \<Rightarrow> 2 | _ \<Rightarrow> 0)
      | Inr y \<Rightarrow> 1)") auto

declare annotate.simps [simp del] merge_strict.simps [simp del] merge_expand.simps [simp del]

definition get_annotations :: "annotated_tokens \<Rightarrow> annotation list" where
  "get_annotations self = annotations self"

fun get_annotation_at :: "annotation list \<Rightarrow> int \<Rightarrow> int \<Rightarrow> annotation option" where
  "get_annotation_at [] start en = None"
| "get_annotation_at (ann # rest) start en =
     (if ann_start ann = start \<and> ann_end ann = en then Some ann
      else get_annotation_at rest start en)"

text \<open>The number of tokens \<open>apply_correction\<close> counts in a text:
  \<open>len(s.split(" ")) if s else 0\<close>.\<close>

definition token_count :: "string \<Rightarrow> int" where
  "token_count s = (if s \<noteq> [] then int (length (str_split (CHR '' '') s)) else 0)"

text \<open>The replacement \<open>apply_correction\<close> applies: \<open>suggestions[level]\<close> when the
  annotation has suggestions, its own source text otherwise.\<close>

definition chosen_replacement :: "annotation \<Rightarrow> int \<Rightarrow> error + string" where
  "chosen_replacement annotation level =
     (if suggestions annotation \<noteq> [] then py_index (suggestions annotation) level
      else Inr (source_text annotation))"

text \<open>The remapping loop at the end of \<open>apply_correction\<close>.\<close>

definition shift_from :: "int \<Rightarrow> int \<Rightarrow> annotation \<Rightarrow> annotation" where
  "shift_from pos delta a =
     (if ann_start a \<ge> pos then a\<lparr>ann_start := ann_start a + delta, ann_end := ann_end a + delta\<rparr>
      else a)"

definition apply_correction :: "annotation \<Rightarrow> int \<Rightarrow> annotated_tokens \<Rightarrow> outcome" where
  "apply_correction annotation level self =
     (case list_remove (annotations self) annotation of
        None \<Rightarrow> Raised NotFoundError self
      | Some anns \<Rightarrow>
          let self1 = self\<lparr>annotations := anns\<rparr>;
              toks = MutableTokens (Toks (tokens self1))
          in (case chosen_replacement annotation level of
                Inl e \<Rightarrow> Raised e self1
              | Inr repl \<Rightarrow>
                  let toks' = replace (ann_start annotation) (ann_end annotation) repl toks;
                      self2 = self1\<lparr>tokens := get_edited_tokens False toks'\<rparr>;
                      delta = token_count repl - token_count (source_text annotation)
                  in Done (self2\<lparr>annotations :=
                             map (shift_from (ann_start annotation) delta) (annotations self2)\<rparr>)))"

definition get_original_tokens :: "annotated_tokens \<Rightarrow> string list" where
  "get_original_tokens self = tokens self"

definition get_original_text :: "annotated_tokens \<Rightarrow> string" where
  "get_original_text self = str_join '' '' (get_original_tokens self)"

text \<open>The loop of \<open>get_corrected_tokens\<close>: an annotation with no suggestion at \<open>level\<close>
  raises \<open>IndexError\<close>, which the loop swallows.\<close>

fun corrected_loop :: "int \<Rightarrow> annotation list \<Rightarrow> mutable_tokens \<Rightarrow> mutable_tokens" where
  "corrected_loop level [] toks = toks"
| "corrected_loop level (ann # rest) toks =
     (case py_index (suggestions ann) level of
        Inl e \<Rightarrow> corrected_loop level rest toks
      | Inr sugg \<Rightarrow> corrected_loop level rest (replace (ann_start ann) (ann_end ann) sugg toks))"

definition get_corrected_tokens :: "int \<Rightarrow> annotated_tokens \<Rightarrow> string list" where
  "get_corrected_tokens level self =
     get_edited_tokens False
       (corrected_loop level (annotations self) (MutableTokens (Toks (tokens self))))"

definition get_corrected_text :: "int \<Rightarrow> annotated_tokens \<Rightarrow> string" where
  "get_corrected_text level self = str_join '' '' (get_corrected_tokens level self)"



text \<open>The loop of \<open>combine\<close> over the annotations of the other buffer.\<close>

fun combine_loop :: "on_overlap \<Rightarrow> annotation list \<Rightarrow> annotated_tokens \<Rightarrow> outcome" where
  "combine_loop policy [] self = Done self"
| "combine_loop policy (ann # rest) self =
     (case annotate (ann_start ann) (ann_end ann) (SuggList (suggestions ann))
             (Some (meta ann)) policy self of
        Raised e self' \<Rightarrow> Raised e self'
      | Done self' \<Rightarrow> combine_loop policy rest self')"

definition combine :: "annotated_tokens \<Rightarrow> bool \<Rightarrow> annotated_tokens \<Rightarrow> outcome" where
  "combine other discard_overlap self =
     (if get_original_text self \<noteq> get_original_text other then Raised MismatchError self
      else
        let policy = (if discard_overlap then SAVE_OLD else ERROR)
        in combine_loop policy (get_annotations other) self)"

text \<open>The annotation \<open>combine\<close> has \<open>annotate\<close> build in the buffer from an annotation
  of the other buffer: its coordinates, suggestions and metadata, with the source text read
  from the tokens of the buffer itself.\<close>

definition inserted :: "annotated_tokens \<Rightarrow> annotation \<Rightarrow> annotation" where
  "inserted self a =
     \<lparr>ann_start = ann_start a, ann_end = ann_end a,
      source_text = str_join '' '' (py_slice (tokens self) (ann_start a) (ann_end a)),
      suggestions = suggestions a, meta = meta a\<rparr>"

text \<open>\<open>iter_annotations\<close> is a generator: between two of its steps the loop of the caller
  runs and may change the buffer. The caller's loop body is a function \<open>body\<close> of the
  number of annotations yielded before, the annotation yielded and the buffer. The loop
  returns the annotations it yielded, in order, and the outcome: an exception of the body
  leaves the loop.\<close>

function iter_annotations_loop ::
  "(nat \<Rightarrow> annotation \<Rightarrow> annotated_tokens \<Rightarrow> outcome) \<Rightarrow> int \<Rightarrow> int \<Rightarrow> annotation list
     \<Rightarrow> annotated_tokens \<Rightarrow> annotation list \<times> outcome"
where
  "iter_annotations_loop body i n_anns visited self =
     (if i < n_anns then
        (case py_index (annotations self) i of
           Inl e \<Rightarrow> (visited, Raised e self)
         | Inr ann \<Rightarrow>
             (case body (length visited) ann self of
                Raised e self' \<Rightarrow> (visited @ [ann], Raised e self')
              | Done self' \<Rightarrow>
                  iter_annotations_loop body
                    (i + ((int (length (annotations self')) - n_anns) + 1))
                    (int (length (annotations self')))
                    (visited @ [ann]) self'))
      else (visited, Done self))"
  by pat_completeness auto
termination
  by (relation "measure (\<lambda>(body, i, n_anns, visited, self). nat (n_anns - i))") auto

declare iter_annotations_loop.simps [simp del]

definition iter_annotations ::
  "(nat \<Rightarrow> annotation \<Rightarrow> annotated_tokens \<Rightarrow> outcome) \<Rightarrow> annotated_tokens
     \<Rightarrow> annotation list \<times> outcome"
where
  "iter_annotations body self =
     iter_annotations_loop body 0 (int (length (annotations self))) [] self"

text \<open>\<open>filter_annotations\<close>, the caller of \<open>iter_annotations\<close> inside the class. The
  filter takes the annotation and the buffer (a filter of one argument ignores the
  buffer).\<close>

definition filter_annotations ::
  "(annotation \<Rightarrow> annotated_tokens \<Rightarrow> bool) \<Rightarrow> annotated_tokens \<Rightarrow> outcome" where
  "filter_annotations f self =
     snd (iter_annotations
            (\<lambda>k ann buf. if \<not> f ann buf then remove_ann ann buf else Done buf) self)"



text \<open>What an annotation carries besides its coordinates.\<close>

definition payload :: "annotation \<Rightarrow> string \<times> string list \<times> dict" where
  "payload a = (source_text a, suggestions a, meta a)"

section \<open>difflib.SequenceMatcher, as align.py calls it\<close>

text \<open>
  \<open>align.py\<close> builds \<open>difflib.SequenceMatcher(None, tokens, translation_tokens)\<close> and reads
  \<open>get_opcodes()\<close>. The class is Python's standard library; the functions below follow
  its methods \<open>__chain_b\<close>, \<open>find_longest_match\<close>, \<open>get_matching_blocks\<close> and
  \<open>get_opcodes\<close>. The junk predicate is \<open>None\<close>, so the set \<open>bjunk\<close> is empty, no key is
  purged as junk and the two loops of \<open>find_longest_match\<close> that extend a match over
  junk never run; \<open>autojunk\<close> keeps its default \<open>True\<close>. The indices are natural numbers:
  every index the class computes lies between 0 and the length of its sequence.

  \<open>b2j\<close> maps an element of \<open>b\<close> to the increasing list of its positions in \<open>b\<close>.
\<close>

fun chain_b_loop :: "nat \<Rightarrow> 'a list \<Rightarrow> ('a \<rightharpoonup> nat list) \<Rightarrow> ('a \<rightharpoonup> nat list)" where
  "chain_b_loop i [] b2j = b2j"
| "chain_b_loop i (elt # rest) b2j =
     chain_b_loop (Suc i) rest
       (b2j(elt \<mapsto> (case b2j elt of None \<Rightarrow> [] | Some indices \<Rightarrow> indices) @ [i]))"

text \<open>With 200 elements or more, an element that occurs more than \<open>n // 100 + 1\<close> times
  is popular and loses its key.\<close>

definition chain_b :: "'a list \<Rightarrow> ('a \<rightharpoonup> nat list)" where
  "chain_b b =
     (let b2j = chain_b_loop 0 b Map.empty; n = length b
      in if n \<ge> 200 then
           (let ntest = n div 100 + 1
            in (\<lambda>elt. case b2j elt of
                         None \<Rightarrow> None
                       | Some idxs \<Rightarrow> if length idxs > ntest then None else Some idxs))
         else b2j)"

text \<open>The inner loop of \<open>find_longest_match\<close>, over the positions \<open>j\<close> of \<open>a[i]\<close> in \<open>b\<close>.
  \<open>j2len.get(j - 1, 0)\<close> is 0 at \<open>j = 0\<close>: no key of \<open>j2len\<close> is negative.\<close>

fun flm_inner ::
  "nat \<Rightarrow> nat \<Rightarrow> nat \<Rightarrow> (nat \<rightharpoonup> nat) \<Rightarrow> nat list \<Rightarrow> (nat \<rightharpoonup> nat) \<Rightarrow> nat \<times> nat \<times> nat
     \<Rightarrow> (nat \<rightharpoonup> nat) \<times> (nat \<times> nat \<times> nat)"
where
  "flm_inner i blo bhi j2len [] newj2len best = (newj2len, best)"
| "flm_inner i blo bhi j2len (j # js) newj2len (besti, bestj, bestsize) =
     (if j < blo then flm_inner i blo bhi j2len js newj2len (besti, bestj, bestsize)
      else if j \<ge> bhi then (newj2len, (besti, bestj, bestsize))
      else
        let k = (if j = 0 then 0 else (case j2len (j - 1) of None \<Rightarrow> 0 | Some v \<Rightarrow> v)) + 1;
            newj2len' = newj2len(j \<mapsto> k)
        in if k > bestsize then flm_inner i blo bhi j2len js newj2len' (i + 1 - k, j + 1 - k, k)
           else flm_inner i blo bhi j2len js newj2len' (besti, bestj, bestsize))"

text \<open>The outer loop, over \<open>i\<close> in \<open>range(alo, ahi)\<close>.\<close>

fun flm_outer ::
  "'a list \<Rightarrow> ('a \<rightharpoonup> nat list) \<Rightarrow> nat \<Rightarrow> nat \<Rightarrow> nat list \<Rightarrow> (nat \<rightharpoonup> nat) \<Rightarrow> nat \<times> nat \<times> nat
     \<Rightarrow> nat \<times> nat \<times> nat"
where
  "flm_outer a b2j blo bhi [] j2len best = best"
| "flm_outer a b2j blo bhi (i # is) j2len best =
     (case flm_inner i blo bhi j2len (case b2j (a ! i) of None \<Rightarrow> [] | Some js \<Rightarrow> js)
             Map.empty best of
        (newj2len, best') \<Rightarrow> flm_outer a b2j blo bhi is newj2len best')"

text \<open>The two loops that extend the best match by equal elements at each end.\<close>

function extend_back :: "'a list \<Rightarrow> 'a list \<Rightarrow> nat \<Rightarrow> nat \<Rightarrow> nat \<times> nat \<times> nat \<Rightarrow> nat \<times> nat \<times> nat" where
  "extend_back a b alo blo (besti, bestj, bestsize) =
     (if besti > alo \<and> bestj > blo \<and> a ! (besti - 1) = b ! (bestj - 1)
        then extend_back a b alo blo (besti - 1, bestj - 1, bestsize + 1)
      else (besti, bestj, bestsize))"
  by pat_completeness auto
termination
  by (relation "measure (\<lambda>(a, b, alo, blo, besti, bestj, bestsize). besti)") auto

function extend_forward :: "'a list \<Rightarrow> 'a list \<Rightarrow> nat \<Rightarrow> nat \<Rightarrow> nat \<times> nat \<times> nat \<Rightarrow> nat \<times> nat \<times> nat" where
  "extend_forward a b ahi bhi (besti, bestj, bestsize) =
     (if besti + bestsize < ahi \<and> bestj + bestsize < bhi
         \<and> a ! (besti + bestsize) = b ! (bestj + bestsize)
        then extend_forward a b ahi bhi (besti, bestj, bestsize + 1)
      else (besti, bestj, bestsize))"
  by pat_completeness auto
termination
  by (relation "measure (\<lambda>(a, b, ahi, bhi, besti, bestj, bestsize). ahi - (besti + bestsize))") auto

declare extend_back.simps [simp del] extend_forward.simps [simp del]

definition find_longest_match ::
  "'a list \<Rightarrow> 'a list \<Rightarrow> ('a \<rightharpoonup> nat list) \<Rightarrow> nat \<Rightarrow> nat \<Rightarrow> nat \<Rightarrow> nat \<Rightarrow> nat \<times> nat \<times> nat" where
  "find_longest_match a b b2j alo ahi blo bhi =
     extend_forward a b ahi bhi
       (extend_back a b alo blo
          (flm_outer a b2j blo bhi [alo..<ahi] Map.empty (alo, blo, 0)))"

text \<open>The loop of \<open>get_matching_blocks\<close> over its queue of ranges: \<open>queue.pop()\<close> takes
  the last range, \<open>queue.append\<close> adds at the end. The loop is a partial function: \<open>None\<close>
  stands for a loop that does not return.\<close>

partial_function (option) matching_loop ::
  "'a list \<Rightarrow> 'a list \<Rightarrow> ('a \<rightharpoonup> nat list) \<Rightarrow> (nat \<times> nat \<times> nat \<times> nat) list \<Rightarrow> (nat \<times> nat \<times> nat) list
     \<Rightarrow> (nat \<times> nat \<times> nat) list option"
where
  "matching_loop a b b2j queue matching_blocks =
     (if queue = [] then Some matching_blocks
      else
        (case last queue of (alo, ahi, blo, bhi) \<Rightarrow>
          (case find_longest_match a b b2j alo ahi blo bhi of (i, j, k) \<Rightarrow>
             if k \<noteq> 0 then
               matching_loop a b b2j
                 ((butlast queue
                    @ (if alo < i \<and> blo < j then [(alo, i, blo, j)] else []))
                    @ (if i + k < ahi \<and> j + k < bhi then [(i + k, ahi, j + k, bhi)] else []))
                 (matching_blocks @ [(i, j, k)])
             else matching_loop a b b2j (butlast queue) matching_blocks)))"

declare matching_loop.simps [code]

text \<open>The loop that collapses adjacent blocks: \<open>(i1, j1, k1)\<close> is the block being
  grown.\<close>

fun collapse_loop ::
  "nat \<times> nat \<times> nat \<Rightarrow> (nat \<times> nat \<times> nat) list \<Rightarrow> (nat \<times> nat \<times> nat) list \<Rightarrow> (nat \<times> nat \<times> nat) list"
where
  "collapse_loop (i1, j1, k1) [] non_adjacent =
     (if k1 \<noteq> 0 then non_adjacent @ [(i1, j1, k1)] else non_adjacent)"
| "collapse_loop (i1, j1, k1) ((i2, j2, k2) # rest) non_adjacent =
     (if i1 + k1 = i2 \<and> j1 + k1 = j2 then collapse_loop (i1, j1, k1 + k2) rest non_adjacent
      else collapse_loop (i2, j2, k2) rest
             (if k1 \<noteq> 0 then non_adjacent @ [(i1, j1, k1)] else non_adjacent))"

definition get_matching_blocks :: "'a list \<Rightarrow> 'a list \<Rightarrow> (nat \<times> nat \<times> nat) list option" where
  "get_matching_blocks a b =
     (let la = length a; lb = length b
      in case matching_loop a b (chain_b b) [(0, la, 0, lb)] [] of
           None \<Rightarrow> None
         | Some matching_blocks \<Rightarrow>
             Some (collapse_loop (0, 0, 0) (sort matching_blocks) [] @ [(la, lb, 0)]))"

datatype tag = Replace | Delete | Insert | Equal

type_synonym opcode = "tag \<times> nat \<times> nat \<times> nat \<times> nat"

fun opcodes_loop :: "nat \<Rightarrow> nat \<Rightarrow> (nat \<times> nat \<times> nat) list \<Rightarrow> opcode list \<Rightarrow> opcode list" where
  "opcodes_loop i j [] answer = answer"
| "opcodes_loop i j ((ai, bj, sz) # rest) answer =
     (let answer1 =
            (if i < ai \<and> j < bj then answer @ [(Replace, i, ai, j, bj)]
             else if i < ai then answer @ [(Delete, i, ai, j, bj)]
             else if j < bj then answer @ [(Insert, i, ai, j, bj)]
             else answer);
          i' = ai + sz;
          j' = bj + sz;
          answer2 = (if sz \<noteq> 0 then answer1 @ [(Equal, ai, i', bj, j')] else answer1)
      in opcodes_loop i' j' rest answer2)"

definition get_opcodes :: "'a list \<Rightarrow> 'a list \<Rightarrow> opcode list option" where
  "get_opcodes a b =
     (case get_matching_blocks a b of
        None \<Rightarrow> None
      | Some blocks \<Rightarrow> Some (opcodes_loop 0 0 blocks []))"

section \<open>align.py\<close>

definition get_tokens :: "str_or_list \<Rightarrow> string list" where
  "get_tokens str_or_list = (case str_or_list of Str s \<Rightarrow> str_split_ws s | Toks l \<Rightarrow> l)"

definition tag_of :: "opcode \<Rightarrow> tag" where
  "tag_of diff = fst diff"

definition gen_diffs :: "str_or_list \<Rightarrow> str_or_list \<Rightarrow> (int \<times> int \<times> string) list option" where
  "gen_diffs original translation =
     (let toks = get_tokens original;
          translation_tokens = get_tokens translation
      in case get_opcodes toks translation_tokens of
           None \<Rightarrow> None
         | Some diffs \<Rightarrow>
             Some (map (\<lambda>(t, i1, i2, j1, j2).
                          (int i1, int i2,
                           str_join '' '' (py_slice translation_tokens (int j1) (int j2))))
                       (filter (\<lambda>diff. tag_of diff \<noteq> Equal) diffs)))"

fun align_loop :: "(int \<times> int \<times> string) list \<Rightarrow> annotated_tokens \<Rightarrow> outcome" where
  "align_loop [] ann_tokens = Done ann_tokens"
| "align_loop ((l, r, repl) # rest) ann_tokens =
     (case annotate l r (SuggStr repl) None ERROR ann_tokens of
        Raised e ann_tokens' \<Rightarrow> Raised e ann_tokens'
      | Done ann_tokens' \<Rightarrow> align_loop rest ann_tokens')"

text \<open>\<open>align\<close>: \<open>None\<close> when the diff does not return, otherwise the outcome of the
  annotation loop on the new buffer.\<close>

definition align :: "str_or_list \<Rightarrow> str_or_list \<Rightarrow> outcome option" where
  "align source target =
     (let source' = (case source of Str s \<Rightarrow> Toks (str_split_ws s) | Toks l \<Rightarrow> Toks l);
          ann_tokens = AnnotatedTokens source'
      in case gen_diffs source' target of
           None \<Rightarrow> None
         | Some diffs \<Rightarrow> Some (align_loop diffs ann_tokens))"

section \<open>Invariants of the longest-match search on a sequence matched with itself\<close>

text \<open>What \<open>chain_b_loop\<close> has built after the first \<open>i\<close> elements: an element not seen
  yet has no key, and the list of a key holds the positions of the element below \<open>i\<close>, in
  increasing order.\<close>

definition b2j_inv :: "'a list \<Rightarrow> nat \<Rightarrow> ('a \<rightharpoonup> nat list) \<Rightarrow> bool" where
  "b2j_inv full i m \<longleftrightarrow>
     (\<forall>elt. case m elt of
              None \<Rightarrow> \<forall>j < i. full ! j \<noteq> elt
            | Some js \<Rightarrow> sorted_wrt (<) js \<and> set js = {j. j < i \<and> full ! j = elt})"

text \<open>When a sequence is matched with itself: the length of the run of elements with a key
  in \<open>b2j\<close> that ends at position \<open>i\<close>, which is the value the search stores for the
  diagonal cell \<open>(i, i)\<close>.\<close>

fun diag_run :: "('a \<rightharpoonup> nat list) \<Rightarrow> 'a list \<Rightarrow> nat \<Rightarrow> nat" where
  "diag_run b2j S 0 = (if b2j (S ! 0) = None then 0 else 1)"
| "diag_run b2j S (Suc i) = (if b2j (S ! Suc i) = None then 0 else Suc (diag_run b2j S i))"

text \<open>The value \<open>k\<close> the inner loop computes at position \<open>j\<close> from the row before.\<close>

definition kval :: "(nat \<rightharpoonup> nat) \<Rightarrow> nat \<Rightarrow> nat" where
  "kval j2len j = (if j = 0 then 0 else (case j2len (j - 1) of None \<Rightarrow> 0 | Some v \<Rightarrow> v)) + 1"

text \<open>The row \<open>j2len\<close> that the inner loop leaves for row \<open>r\<close>: no stored length exceeds the
  diagonal run of its row or of its column, and the diagonal cell holds its run.\<close>

definition row_inv :: "('a \<rightharpoonup> nat list) \<Rightarrow> 'a list \<Rightarrow> nat \<Rightarrow> (nat \<rightharpoonup> nat) \<Rightarrow> bool" where
  "row_inv b2j S r j2len \<longleftrightarrow>
     (\<forall>j v. j2len j = Some v \<longrightarrow> v \<le> diag_run b2j S r \<and> v \<le> diag_run b2j S j)
     \<and> (b2j (S ! r) \<noteq> None \<longrightarrow> j2len r = Some (diag_run b2j S r))"

text \<open>The row the inner loop receives at row \<open>r\<close>: empty at the first row, the row left by
  row \<open>r - 1\<close> later.\<close>

definition prev_ok :: "('a \<rightharpoonup> nat list) \<Rightarrow> 'a list \<Rightarrow> nat \<Rightarrow> (nat \<rightharpoonup> nat) \<Rightarrow> bool" where
  "prev_ok b2j S r j2len \<longleftrightarrow>
     (case r of 0 \<Rightarrow> j2len = Map.empty | Suc i \<Rightarrow> row_inv b2j S i j2len)"

section \<open>Facts about annotate used by several results\<close>

lemma annotate_no_overlap:
  "start \<le> en \<Longrightarrow> get_overlaps self start en = [] \<Longrightarrow>
   annotate start en correct meta_arg policy self =
     Done (self\<lparr>annotations := annotations self @
       [\<lparr>ann_start = start, ann_end = en,
         source_text = str_join '' '' (py_slice (tokens self) start en),
         suggestions = suggestions_of correct, meta = meta_of meta_arg\<rparr>]\<rparr>)"
  by (simp add: annotate.simps Let_def)

lemma annotate_error_overlap:
  "start \<le> en \<Longrightarrow> get_overlaps self start en \<noteq> [] \<Longrightarrow>
   annotate start en correct meta_arg ERROR self = Raised OverlapError self"
  by (simp add: annotate.simps Let_def)

lemma overlaps_point_self:
  assumes "ann_start a = p" and "ann_end a = p"
  shows "get_overlaps (self\<lparr>annotations := annotations self @ [a]\<rparr>) p p \<noteq> []"
  using assms by (simp add: get_overlaps_def)

section \<open>Correction application\<close>

lemma apply_correction_Done:
  assumes "apply_correction annotation level self = Done self'"
  obtains anns repl where
    "list_remove (annotations self) annotation = Some anns"
    "chosen_replacement annotation level = Inr repl"
    "annotations self' =
       map (shift_from (ann_start annotation)
              (token_count repl - token_count (source_text annotation))) anns"
  using assms
  by (auto simp: apply_correction_def Let_def split: option.splits sum.splits)

text \<open>
  Claim C1. When \<open>apply_correction annotation level\<close> returns, the collection is the
  list \<open>anns\<close> of the other annotations (the collection without the first annotation
  equal to the corrected one), position by position, where an annotation that starts at or
  after the start of the corrected one has its start and its end moved by
  \<open>delta = token_count repl - token_count (source_text annotation)\<close>, \<open>repl\<close> being the
  replacement applied, and an annotation that starts before it is unchanged, wherever it
  ends.
\<close>

theorem apply_correction_remaps:
  assumes "apply_correction annotation level self = Done self'"
  shows "\<exists>anns repl.
           list_remove (annotations self) annotation = Some anns
         \<and> chosen_replacement annotation level = Inr repl
         \<and> length (annotations self') = length anns
         \<and> (\<forall>i < length anns.
               (ann_start (anns ! i) \<ge> ann_start annotation \<longrightarrow>
                  annotations self' ! i =
                    (anns ! i)\<lparr>ann_start := ann_start (anns ! i)
                                   + (token_count repl - token_count (source_text annotation)),
                                 ann_end := ann_end (anns ! i)
                                   + (token_count repl - token_count (source_text annotation))\<rparr>)
             \<and> (ann_start (anns ! i) < ann_start annotation \<longrightarrow>
                  annotations self' ! i = anns ! i))"
proof -
  from assms obtain anns repl where
    r: "list_remove (annotations self) annotation = Some anns"
    and c: "chosen_replacement annotation level = Inr repl"
    and a: "annotations self' =
       map (shift_from (ann_start annotation)
              (token_count repl - token_count (source_text annotation))) anns"
    by (rule apply_correction_Done)
  have "length (annotations self') = length anns" using a by simp
  moreover have "\<forall>i < length anns.
               (ann_start (anns ! i) \<ge> ann_start annotation \<longrightarrow>
                  annotations self' ! i =
                    (anns ! i)\<lparr>ann_start := ann_start (anns ! i)
                                   + (token_count repl - token_count (source_text annotation)),
                                 ann_end := ann_end (anns ! i)
                                   + (token_count repl - token_count (source_text annotation))\<rparr>)
             \<and> (ann_start (anns ! i) < ann_start annotation \<longrightarrow>
                  annotations self' ! i = anns ! i)"
    using a by (simp add: shift_from_def)
  ultimately show ?thesis using r c by blast
qed

text \<open>The buffer \<open>a b c d\<close> with an annotation before the corrected one, the corrected
  one over \<open>b\<close>, one that straddles it and one after it: replacing \<open>b\<close> by \<open>x y\<close> moves the
  last one only.\<close>

lemma apply_correction_example:
  "apply_correction
     \<lparr>ann_start = 1, ann_end = 2, source_text = ''b'', suggestions = [''x y''], meta = []\<rparr> 0
     \<lparr>tokens = [''a'', ''b'', ''c'', ''d''],
      annotations =
        [\<lparr>ann_start = 0, ann_end = 1, source_text = ''a'', suggestions = [''A''], meta = []\<rparr>,
         \<lparr>ann_start = 1, ann_end = 2, source_text = ''b'', suggestions = [''x y''], meta = []\<rparr>,
         \<lparr>ann_start = 0, ann_end = 3, source_text = ''a b c'', suggestions = [''z''], meta = []\<rparr>,
         \<lparr>ann_start = 2, ann_end = 3, source_text = ''c'', suggestions = [''C''], meta = []\<rparr>]\<rparr>
   = Done
     \<lparr>tokens = [''a'', ''x'', ''y'', ''c'', ''d''],
      annotations =
        [\<lparr>ann_start = 0, ann_end = 1, source_text = ''a'', suggestions = [''A''], meta = []\<rparr>,
         \<lparr>ann_start = 0, ann_end = 3, source_text = ''a b c'', suggestions = [''z''], meta = []\<rparr>,
         \<lparr>ann_start = 3, ann_end = 4, source_text = ''c'', suggestions = [''C''], meta = []\<rparr>]\<rparr>"
  by (simp add: apply_correction_def ann_eq_def chosen_replacement_def py_index_def
      MutableTokens_def replace_def get_edited_tokens_def py_slice_def py_slice_from_def
      clamp_index_def token_count_def shift_from_def Let_def)

theorem apply_correction_remaps_witness:
  "apply_correction
     \<lparr>ann_start = 1, ann_end = 2, source_text = ''b'', suggestions = [''x y''], meta = []\<rparr> 0
     \<lparr>tokens = [''a'', ''b'', ''c'', ''d''],
      annotations =
        [\<lparr>ann_start = 0, ann_end = 1, source_text = ''a'', suggestions = [''A''], meta = []\<rparr>,
         \<lparr>ann_start = 1, ann_end = 2, source_text = ''b'', suggestions = [''x y''], meta = []\<rparr>,
         \<lparr>ann_start = 0, ann_end = 3, source_text = ''a b c'', suggestions = [''z''], meta = []\<rparr>,
         \<lparr>ann_start = 2, ann_end = 3, source_text = ''c'', suggestions = [''C''], meta = []\<rparr>]\<rparr>
   = Done
     \<lparr>tokens = [''a'', ''x'', ''y'', ''c'', ''d''],
      annotations =
        [\<lparr>ann_start = 0, ann_end = 1, source_text = ''a'', suggestions = [''A''], meta = []\<rparr>,
         \<lparr>ann_start = 0, ann_end = 3, source_text = ''a b c'', suggestions = [''z''], meta = []\<rparr>,
         \<lparr>ann_start = 3, ann_end = 4, source_text = ''c'', suggestions = [''C''], meta = []\<rparr>]\<rparr>
   \<and> (\<exists>anns repl.
      list_remove
        [\<lparr>ann_start = 0, ann_end = 1, source_text = ''a'', suggestions = [''A''], meta = []\<rparr>,
         \<lparr>ann_start = 1, ann_end = 2, source_text = ''b'', suggestions = [''x y''], meta = []\<rparr>,
         \<lparr>ann_start = 0, ann_end = 3, source_text = ''a b c'', suggestions = [''z''], meta = []\<rparr>,
         \<lparr>ann_start = 2, ann_end = 3, source_text = ''c'', suggestions = [''C''], meta = []\<rparr>]
        \<lparr>ann_start = 1, ann_end = 2, source_text = ''b'', suggestions = [''x y''], meta = []\<rparr>
        = Some anns
    \<and> chosen_replacement
        \<lparr>ann_start = 1, ann_end = 2, source_text = ''b'', suggestions = [''x y''], meta = []\<rparr> 0
        = Inr repl
    \<and> length anns = 3
    \<and> token_count repl - token_count ''b'' = 1)"
  using apply_correction_remaps [OF apply_correction_example] apply_correction_example
  by (simp add: ann_eq_def chosen_replacement_def py_index_def token_count_def)

text \<open>
  Claim C2. \<open>apply_correction\<close> removes the annotation before it reads
  \<open>suggestions[level]\<close>: on the buffer \<open>a b c\<close> with the one annotation \<open>(1, 2, b, [x y])\<close>,
  the call at level 1 raises \<open>IndexError\<close> and leaves the annotation removed while the
  tokens are as they were.
\<close>

theorem apply_correction_not_atomic:
  "apply_correction
     \<lparr>ann_start = 1, ann_end = 2, source_text = ''b'', suggestions = [''x y''], meta = []\<rparr> 1
     \<lparr>tokens = [''a'', ''b'', ''c''],
      annotations =
        [\<lparr>ann_start = 1, ann_end = 2, source_text = ''b'', suggestions = [''x y''], meta = []\<rparr>]\<rparr>
   = Raised IndexError \<lparr>tokens = [''a'', ''b'', ''c''], annotations = []\<rparr>"
  by (simp add: apply_correction_def ann_eq_def chosen_replacement_def py_index_def Let_def)

section \<open>Overlap policies\<close>

text \<open>
  Claim C3. With exactly one overlapping annotation, \<open>annotate\<close> under \<open>merge_expand\<close>
  merges nothing: \<open>merge_expand\<close> reads the attribute \<open>_text\<close>, which the buffer does not
  have, and the call raises \<open>AttributeError\<close> with the buffer unchanged. Here on the
  buffer \<open>a b c\<close> with the annotation \<open>(0, 2, a b, [x y])\<close> and the new span \<open>(1, 3)\<close>.
\<close>

theorem merge_expand_raises:
  "annotate 1 3 (SuggStr ''z'') None MERGE_EXPAND
     \<lparr>tokens = [''a'', ''b'', ''c''],
      annotations =
        [\<lparr>ann_start = 0, ann_end = 2, source_text = ''a b'', suggestions = [''x y''], meta = []\<rparr>]\<rparr>
   = Raised AttributeError
     \<lparr>tokens = [''a'', ''b'', ''c''],
      annotations =
        [\<lparr>ann_start = 0, ann_end = 2, source_text = ''a b'', suggestions = [''x y''], meta = []\<rparr>]\<rparr>"
  by (simp add: annotate.simps merge_expand.simps get_overlaps_def span_intersect_def
      attr_text_def Let_def)

text \<open>
  Claim C8. For every buffer and every position \<open>p\<close>, after a first
  \<open>annotate p p\<close> under the default policy \<open>error\<close> (whether it inserted the annotation
  or itself met an overlap), a second \<open>annotate p p\<close> under the default policy raises
  \<open>OverlapError\<close> and leaves the buffer as the first call left it.
\<close>

theorem zero_length_twice_overlaps:
  "annotate p p correct2 meta2 ERROR (state_of (annotate p p correct1 meta1 ERROR self))
     = Raised OverlapError (state_of (annotate p p correct1 meta1 ERROR self))"
proof (cases "get_overlaps self p p = []")
  case True
  then have "annotate p p correct1 meta1 ERROR self =
      Done (self\<lparr>annotations := annotations self @
       [\<lparr>ann_start = p, ann_end = p,
         source_text = str_join '' '' (py_slice (tokens self) p p),
         suggestions = suggestions_of correct1, meta = meta_of meta1\<rparr>]\<rparr>)"
    by (simp add: annotate_no_overlap)
  then show ?thesis
    by (simp add: annotate_error_overlap overlaps_point_self)
next
  case False
  then have "annotate p p correct1 meta1 ERROR self = Raised OverlapError self"
    by (simp add: annotate_error_overlap)
  with False show ?thesis by (simp add: annotate_error_overlap)
qed

section \<open>Removal by value\<close>

lemma list_remove_first:
  "x \<in> set anns \<Longrightarrow> ann_eq x given \<Longrightarrow>
   \<exists>pre found post. anns = pre @ found # post \<and> ann_eq found given
      \<and> (\<forall>y \<in> set pre. \<not> ann_eq y given) \<and> list_remove anns given = Some (pre @ post)"
proof (induction anns)
  case Nil
  then show ?case by simp
next
  case (Cons a anns)
  show ?case
  proof (cases "ann_eq a given")
    case True
    then have "a # anns = [] @ a # anns \<and> ann_eq a given
      \<and> (\<forall>y \<in> set []. \<not> ann_eq y given) \<and> list_remove (a # anns) given = Some ([] @ anns)"
      by simp
    then show ?thesis by blast
  next
    case False
    with Cons.prems have "x \<in> set anns" by auto
    from Cons.IH [OF this Cons.prems(2)] obtain pre found post where
      h: "anns = pre @ found # post" "ann_eq found given"
         "\<forall>y \<in> set pre. \<not> ann_eq y given" "list_remove anns given = Some (pre @ post)"
      by blast
    with False have "a # anns = (a # pre) @ found # post \<and> ann_eq found given
      \<and> (\<forall>y \<in> set (a # pre). \<not> ann_eq y given)
      \<and> list_remove (a # anns) given = Some ((a # pre) @ post)"
      by simp
    then show ?thesis by blast
  qed
qed

lemma sort_eq_of_set_eq:
  fixes xs ys :: "('a::linorder) list"
  assumes "distinct xs" "distinct ys" "set xs = set ys"
  shows "sort xs = sort ys"
  using assms by (intro sorted_distinct_set_unique) simp_all

lemma ann_eq_fieldwise:
  assumes "ann_start a = ann_start b" "ann_end a = ann_end b" "source_text a = source_text b"
    "suggestions a = suggestions b" "set (meta a) = set (meta b)"
    "distinct (map fst (meta a))" "distinct (map fst (meta b))"
  shows "ann_eq a b"
proof -
  have "distinct (meta a)" "distinct (meta b)"
    using assms(6,7) by (simp_all add: distinct_map)
  then have "sort (meta a) = sort (meta b)"
    using assms(5) by (rule sort_eq_of_set_eq)
  then show ?thesis using assms(1-4) by (simp add: ann_eq_def)
qed

lemma chosen_replacement_level0: "\<exists>repl. chosen_replacement a 0 = Inr repl"
  by (simp add: chosen_replacement_def py_index_def)

lemma chosen_replacement_Inl: "chosen_replacement a level = Inl e \<Longrightarrow> e = IndexError"
  by (simp add: chosen_replacement_def py_index_def split: if_splits)

lemma ann_eq_iff_fields:
  assumes "distinct (map fst (meta a))" "distinct (map fst (meta b))"
  shows "ann_eq a b \<longleftrightarrow>
           (ann_start a = ann_start b \<and> ann_end a = ann_end b \<and> source_text a = source_text b
            \<and> suggestions a = suggestions b \<and> set (meta a) = set (meta b))"
proof
  assume e: "ann_eq a b"
  then have "sort (meta a) = sort (meta b)" by (simp add: ann_eq_def)
  then have "set (sort (meta a)) = set (sort (meta b))" by simp
  then have "set (meta a) = set (meta b)" by simp
  with e show "ann_start a = ann_start b \<and> ann_end a = ann_end b \<and> source_text a = source_text b
            \<and> suggestions a = suggestions b \<and> set (meta a) = set (meta b)"
    by (simp add: ann_eq_def)
next
  assume "ann_start a = ann_start b \<and> ann_end a = ann_end b \<and> source_text a = source_text b
            \<and> suggestions a = suggestions b \<and> set (meta a) = set (meta b)"
  with assms show "ann_eq a b" by (simp add: ann_eq_fieldwise)
qed

lemma apply_correction_removed:
  assumes "list_remove (annotations self) given = Some anns"
    and "chosen_replacement given level = Inr repl"
  shows "apply_correction given level self =
     Done \<lparr>tokens = get_edited_tokens False
               (replace (ann_start given) (ann_end given) repl (MutableTokens (Toks (tokens self)))),
           annotations = map (shift_from (ann_start given)
               (token_count repl - token_count (source_text given))) anns\<rparr>"
  using assms by (simp add: apply_correction_def Let_def)

text \<open>
  Claim C10. Removal compares by value. Let the collection hold an annotation whose start,
  end, source text and suggestions equal those of the annotation given and whose metadata
  holds the same key-value pairs, in any order (the metadata are dictionaries: no key
  twice). Then \<open>remove\<close> returns, and what it drops is the first annotation of the
  collection with these five fields equal to those of the one given: every annotation
  before it differs in a field, and the rest of the collection is as it was.
  \<open>apply_correction\<close> returns too, whenever the annotation given has a replacement at
  the level (at the default level it always has one), and takes the same annotation out:
  the collection it leaves is that of \<open>remove\<close>, remapped.
\<close>

theorem remove_by_value:
  assumes "stored \<in> set (annotations self)"
    and "ann_start stored = ann_start given" and "ann_end stored = ann_end given"
    and "source_text stored = source_text given"
    and "suggestions stored = suggestions given"
    and "set (meta stored) = set (meta given)"
    and "distinct (map fst (meta given))"
    and "\<forall>y \<in> set (annotations self). distinct (map fst (meta y))"
  shows "\<exists>pre found post.
           annotations self = pre @ found # post
         \<and> ann_start found = ann_start given \<and> ann_end found = ann_end given
         \<and> source_text found = source_text given \<and> suggestions found = suggestions given
         \<and> set (meta found) = set (meta given)
         \<and> (\<forall>y \<in> set pre. \<not> (ann_start y = ann_start given \<and> ann_end y = ann_end given
                \<and> source_text y = source_text given \<and> suggestions y = suggestions given
                \<and> set (meta y) = set (meta given)))
         \<and> remove_ann given self = Done (self\<lparr>annotations := pre @ post\<rparr>)
         \<and> (\<exists>repl. chosen_replacement given 0 = Inr repl)
         \<and> (\<forall>level repl. chosen_replacement given level = Inr repl \<longrightarrow>
               apply_correction given level self =
                 Done \<lparr>tokens = get_edited_tokens False
                          (replace (ann_start given) (ann_end given) repl
                             (MutableTokens (Toks (tokens self)))),
                       annotations = map (shift_from (ann_start given)
                          (token_count repl - token_count (source_text given))) (pre @ post)\<rparr>)"
proof -
  have ds: "distinct (map fst (meta stored))" using assms(1,8) by blast
  have "ann_eq stored given"
    using assms(2-6) ds assms(7) by (rule ann_eq_fieldwise)
  from list_remove_first [OF assms(1) this] obtain pre found post where
    h: "annotations self = pre @ found # post" "ann_eq found given"
       "\<forall>y \<in> set pre. \<not> ann_eq y given"
       "list_remove (annotations self) given = Some (pre @ post)"
    by blast
  have df: "distinct (map fst (meta found))" using h(1) assms(8) by simp
  have f: "ann_start found = ann_start given \<and> ann_end found = ann_end given
         \<and> source_text found = source_text given \<and> suggestions found = suggestions given
         \<and> set (meta found) = set (meta given)"
    using h(2) ann_eq_iff_fields [OF df assms(7)] by simp
  have p: "\<forall>y \<in> set pre. \<not> (ann_start y = ann_start given \<and> ann_end y = ann_end given
                \<and> source_text y = source_text given \<and> suggestions y = suggestions given
                \<and> set (meta y) = set (meta given))"
  proof
    fix y assume y: "y \<in> set pre"
    then have "distinct (map fst (meta y))" using h(1) assms(8) by simp
    from ann_eq_iff_fields [OF this assms(7)] h(3) y
    show "\<not> (ann_start y = ann_start given \<and> ann_end y = ann_end given
                \<and> source_text y = source_text given \<and> suggestions y = suggestions given
                \<and> set (meta y) = set (meta given))" by blast
  qed
  have r: "remove_ann given self = Done (self\<lparr>annotations := pre @ post\<rparr>)"
    using h(4) by (simp add: remove_ann_def)
  have z: "\<exists>repl. chosen_replacement given 0 = Inr repl" by (rule chosen_replacement_level0)
  have c: "\<forall>level repl. chosen_replacement given level = Inr repl \<longrightarrow>
               apply_correction given level self =
                 Done \<lparr>tokens = get_edited_tokens False
                          (replace (ann_start given) (ann_end given) repl
                             (MutableTokens (Toks (tokens self)))),
                       annotations = map (shift_from (ann_start given)
                          (token_count repl - token_count (source_text given))) (pre @ post)\<rparr>"
    using apply_correction_removed [OF h(4)] by blast
  show ?thesis
    using h(1) f p r z c
    by - (rule exI [of _ pre], rule exI [of _ found], rule exI [of _ post], blast)
qed


theorem remove_by_value_witness:
  "remove_ann
     \<lparr>ann_start = 0, ann_end = 1, source_text = ''a'', suggestions = [''A B''],
      meta = [(''k'', ''v''), (''a'', ''b'')]\<rparr>
     \<lparr>tokens = [''a'', ''b'', ''c''],
      annotations =
        [\<lparr>ann_start = 0, ann_end = 1, source_text = ''a'', suggestions = [''Z''],
          meta = [(''a'', ''b''), (''k'', ''v'')]\<rparr>,
         \<lparr>ann_start = 0, ann_end = 1, source_text = ''a'', suggestions = [''A B''],
          meta = [(''a'', ''b''), (''k'', ''v'')]\<rparr>,
         \<lparr>ann_start = 2, ann_end = 3, source_text = ''c'', suggestions = [''C''], meta = []\<rparr>,
         \<lparr>ann_start = 0, ann_end = 1, source_text = ''a'', suggestions = [''A B''],
          meta = [(''k'', ''v''), (''a'', ''b'')]\<rparr>]\<rparr>
   = Done \<lparr>tokens = [''a'', ''b'', ''c''],
      annotations =
        [\<lparr>ann_start = 0, ann_end = 1, source_text = ''a'', suggestions = [''Z''],
          meta = [(''a'', ''b''), (''k'', ''v'')]\<rparr>,
         \<lparr>ann_start = 2, ann_end = 3, source_text = ''c'', suggestions = [''C''], meta = []\<rparr>,
         \<lparr>ann_start = 0, ann_end = 1, source_text = ''a'', suggestions = [''A B''],
          meta = [(''k'', ''v''), (''a'', ''b'')]\<rparr>]\<rparr>
   \<and> apply_correction
     \<lparr>ann_start = 0, ann_end = 1, source_text = ''a'', suggestions = [''A B''],
      meta = [(''k'', ''v''), (''a'', ''b'')]\<rparr> 0
     \<lparr>tokens = [''a'', ''b'', ''c''],
      annotations =
        [\<lparr>ann_start = 0, ann_end = 1, source_text = ''a'', suggestions = [''Z''],
          meta = [(''a'', ''b''), (''k'', ''v'')]\<rparr>,
         \<lparr>ann_start = 0, ann_end = 1, source_text = ''a'', suggestions = [''A B''],
          meta = [(''a'', ''b''), (''k'', ''v'')]\<rparr>,
         \<lparr>ann_start = 2, ann_end = 3, source_text = ''c'', suggestions = [''C''], meta = []\<rparr>,
         \<lparr>ann_start = 0, ann_end = 1, source_text = ''a'', suggestions = [''A B''],
          meta = [(''k'', ''v''), (''a'', ''b'')]\<rparr>]\<rparr>
   = Done \<lparr>tokens = [''A'', ''B'', ''b'', ''c''],
      annotations =
        [\<lparr>ann_start = 1, ann_end = 2, source_text = ''a'', suggestions = [''Z''],
          meta = [(''a'', ''b''), (''k'', ''v'')]\<rparr>,
         \<lparr>ann_start = 3, ann_end = 4, source_text = ''c'', suggestions = [''C''], meta = []\<rparr>,
         \<lparr>ann_start = 1, ann_end = 2, source_text = ''a'', suggestions = [''A B''],
          meta = [(''k'', ''v''), (''a'', ''b'')]\<rparr>]\<rparr>"
  (is "remove_ann ?G ?B = Done ?R \<and> apply_correction ?G 0 ?B = Done ?C")
proof -
  let ?S = "\<lparr>ann_start = 0, ann_end = 1, source_text = ''a'', suggestions = [''A B''],
          meta = [(''a'', ''b''), (''k'', ''v'')]\<rparr>"
  have "\<exists>pre found post.
           annotations ?B = pre @ found # post
         \<and> ann_start found = ann_start ?G \<and> ann_end found = ann_end ?G
         \<and> source_text found = source_text ?G \<and> suggestions found = suggestions ?G
         \<and> set (meta found) = set (meta ?G)
         \<and> (\<forall>y \<in> set pre. \<not> (ann_start y = ann_start ?G \<and> ann_end y = ann_end ?G
                \<and> source_text y = source_text ?G \<and> suggestions y = suggestions ?G
                \<and> set (meta y) = set (meta ?G)))
         \<and> remove_ann ?G ?B = Done (?B\<lparr>annotations := pre @ post\<rparr>)
         \<and> (\<exists>repl. chosen_replacement ?G 0 = Inr repl)
         \<and> (\<forall>level repl. chosen_replacement ?G level = Inr repl \<longrightarrow>
               apply_correction ?G level ?B =
                 Done \<lparr>tokens = get_edited_tokens False
                          (replace (ann_start ?G) (ann_end ?G) repl
                             (MutableTokens (Toks (tokens ?B)))),
                       annotations = map (shift_from (ann_start ?G)
                          (token_count repl - token_count (source_text ?G))) (pre @ post)\<rparr>)"
    by (rule remove_by_value [of ?S ?B ?G]) auto
  then obtain pre found post where
    dec: "annotations ?B = pre @ found # post"
    and fs: "suggestions found = suggestions ?G"
    and nf: "\<forall>y \<in> set pre. \<not> (ann_start y = ann_start ?G \<and> ann_end y = ann_end ?G
                \<and> source_text y = source_text ?G \<and> suggestions y = suggestions ?G
                \<and> set (meta y) = set (meta ?G))"
    and r: "remove_ann ?G ?B = Done (?B\<lparr>annotations := pre @ post\<rparr>)"
    and c: "\<forall>level repl. chosen_replacement ?G level = Inr repl \<longrightarrow>
               apply_correction ?G level ?B =
                 Done \<lparr>tokens = get_edited_tokens False
                          (replace (ann_start ?G) (ann_end ?G) repl
                             (MutableTokens (Toks (tokens ?B)))),
                       annotations = map (shift_from (ann_start ?G)
                          (token_count repl - token_count (source_text ?G))) (pre @ post)\<rparr>"
    by (elim exE conjE)
  from dec fs nf have pp: "pre @ post = annotations ?R"
    by (auto simp add: Cons_eq_append_conv)
  have "chosen_replacement ?G 0 = Inr ''A B''"
    by (simp add: chosen_replacement_def py_index_def)
  with c have "apply_correction ?G 0 ?B =
                 Done \<lparr>tokens = get_edited_tokens False
                          (replace (ann_start ?G) (ann_end ?G) ''A B''
                             (MutableTokens (Toks (tokens ?B)))),
                       annotations = map (shift_from (ann_start ?G)
                          (token_count ''A B'' - token_count (source_text ?G))) (pre @ post)\<rparr>"
    by blast
  then have a: "apply_correction ?G 0 ?B = Done ?C"
    by (simp add: pp MutableTokens_def replace_def get_edited_tokens_def py_slice_def
        py_slice_from_def clamp_index_def token_count_def shift_from_def Let_def)
  from r pp a show ?thesis by simp
qed

section \<open>Strict merge of two annotations over one span\<close>

lemma remdups_drop_later: "x \<in> set zs \<Longrightarrow> remdups (ys @ x # zs) = remdups (ys @ zs)"
  by (induction ys) auto

lemma unique_loop_remdups:
  "distinct res \<Longrightarrow> unique_loop res xs = rev (remdups (rev (res @ xs)))"
proof (induction xs arbitrary: res)
  case Nil
  then show ?case by (simp add: distinct_remdups_id)
next
  case (Cons x xs)
  show ?case
  proof (cases "x \<in> set res")
    case True
    then have "remdups (rev xs @ x # rev res) = remdups (rev xs @ rev res)"
      by (intro remdups_drop_later) simp
    with True Cons show ?thesis by simp
  next
    case False
    with Cons.prems have "distinct (res @ [x])" by simp
    from Cons.IH [OF this] False show ?thesis by simp
  qed
qed

lemma unique_list_remdups: "unique_list xs = rev (remdups (rev xs))"
  using unique_loop_remdups [of "[]" xs] by (simp add: unique_list_def)

lemma set_unique_list: "set (unique_list xs) = set xs"
  by (simp add: unique_list_remdups)

lemma distinct_unique_list: "distinct (unique_list xs)"
  by (simp add: unique_list_remdups)

lemma same_span_overlaps:
  assumes "s \<le> e" "ann_start a = s" "ann_end a = e"
  shows "span_intersect [(ann_start a, ann_end a)] s e \<noteq> - 1
     \<or> (s = e \<and> ann_start a = ann_end a \<and> s = ann_start a)"
  using assms by (cases "s = e") (simp_all add: span_intersect_def Let_def)

lemma no_overlap_no_equal:
  assumes "get_overlaps self s e = []" "s \<le> e" "ann_start a = s" "ann_end a = e"
    "x \<in> set (annotations self)"
  shows "\<not> ann_eq x a"
proof
  assume "ann_eq x a"
  then have "ann_start x = s" "ann_end x = e" using assms(3,4) by (simp_all add: ann_eq_def)
  from same_span_overlaps [OF assms(2) this] assms(5)
  have "x \<in> set (get_overlaps self s e)" by (simp add: get_overlaps_def)
  with assms(1) show False by simp
qed

lemma list_remove_last:
  "\<forall>x \<in> set anns. \<not> ann_eq x a \<Longrightarrow> ann_eq a a \<Longrightarrow> list_remove (anns @ [a]) a = Some anns"
  by (induction anns) simp_all

lemma ann_eq_refl: "ann_eq a a"
  by (simp add: ann_eq_def)

lemma get_overlaps_append_same:
  assumes "get_overlaps self s e = []" "s \<le> e" "ann_start a = s" "ann_end a = e"
  shows "get_overlaps (self\<lparr>annotations := annotations self @ [a]\<rparr>) s e = [a]"
  using assms(1) same_span_overlaps [OF assms(2-4)] by (simp add: get_overlaps_def)


lemma merge_strict_step:
  assumes "s \<le> e" and "get_overlaps self s e = []"
    and "ann_start a = s" and "ann_end a = e"
  shows "annotate s e c2 m2 MERGE_STRICT (self\<lparr>annotations := annotations self @ [a]\<rparr>) =
         Done (self\<lparr>annotations := annotations self @
           [\<lparr>ann_start = s, ann_end = e,
             source_text = str_join '' '' (py_slice (tokens self) s e),
             suggestions = unique_list (suggestions a @ suggestions_of c2),
             meta = dict_merge (meta a) (meta_of m2)\<rparr>]\<rparr>)"
proof -
  let ?b = "self\<lparr>annotations := annotations self @ [a]\<rparr>"
  have ov: "get_overlaps ?b s e = [a]"
    by (rule get_overlaps_append_same [OF assms(2,1,3,4)])
  have "\<forall>x \<in> set (annotations self). \<not> ann_eq x a"
    using no_overlap_no_equal [OF assms(2,1,3,4)] by blast
  then have rm: "list_remove (annotations self @ [a]) a = Some (annotations self)"
    by (rule list_remove_last) (rule ann_eq_refl)
  show ?thesis
    using assms(1,3,4) ov rm
    by (simp add: annotate.simps [of s e c2 m2 MERGE_STRICT] merge_strict.simps
        remove_ann_def Let_def annotate_no_overlap [OF assms(1,2)] suggestions_of_def meta_of_def)
qed


text \<open>
  Claim C6. On a buffer with no annotation overlapping the span \<open>(s, e)\<close>, inserting an
  annotation over the span and then a second one over the same span under \<open>merge_strict\<close>
  leaves exactly one annotation over that span, appended to the collection: its
  suggestions are \<open>unique_list\<close> of the first list followed by the second (no
  duplicates, the elements of both lists), its metadata the merge of the two. Inserting
  the two in the other order gives the same set of suggestions.
\<close>

theorem merge_strict_identical_spans:
  assumes "s \<le> e" and "get_overlaps self s e = []"
  shows
    "(let bad = str_join '' '' (py_slice (tokens self) s e);
          merged12 = \<lparr>ann_start = s, ann_end = e, source_text = bad,
                      suggestions = unique_list (suggestions_of c1 @ suggestions_of c2),
                      meta = dict_merge (meta_of m1) (meta_of m2)\<rparr>;
          merged21 = \<lparr>ann_start = s, ann_end = e, source_text = bad,
                      suggestions = unique_list (suggestions_of c2 @ suggestions_of c1),
                      meta = dict_merge (meta_of m2) (meta_of m1)\<rparr>
      in annotate s e c2 m2 MERGE_STRICT (state_of (annotate s e c1 m1 policy self))
           = Done (self\<lparr>annotations := annotations self @ [merged12]\<rparr>)
       \<and> get_overlaps (self\<lparr>annotations := annotations self @ [merged12]\<rparr>) s e = [merged12]
       \<and> annotate s e c1 m1 MERGE_STRICT (state_of (annotate s e c2 m2 policy self))
           = Done (self\<lparr>annotations := annotations self @ [merged21]\<rparr>)
       \<and> distinct (suggestions merged12)
       \<and> set (suggestions merged12) = set (suggestions_of c1) \<union> set (suggestions_of c2)
       \<and> set (suggestions merged12) = set (suggestions merged21))"
proof -
  have first: "annotate s e c m policy self =
      Done (self\<lparr>annotations := annotations self @
       [\<lparr>ann_start = s, ann_end = e,
         source_text = str_join '' '' (py_slice (tokens self) s e),
         suggestions = suggestions_of c, meta = meta_of m\<rparr>]\<rparr>)" for c m
    using assms by (rule annotate_no_overlap)
  have second: "annotate s e c' m' MERGE_STRICT (state_of (annotate s e c m policy self)) =
      Done (self\<lparr>annotations := annotations self @
           [\<lparr>ann_start = s, ann_end = e,
             source_text = str_join '' '' (py_slice (tokens self) s e),
             suggestions = unique_list (suggestions_of c @ suggestions_of c'),
             meta = dict_merge (meta_of m) (meta_of m')\<rparr>]\<rparr>)" for c m c' m'
    using merge_strict_step [OF assms, of
        "\<lparr>ann_start = s, ann_end = e,
         source_text = str_join '' '' (py_slice (tokens self) s e),
         suggestions = suggestions_of c, meta = meta_of m\<rparr>" c' m']
    by (simp add: first)
  have ov: "get_overlaps (self\<lparr>annotations := annotations self @ [a]\<rparr>) s e = [a]"
    if "ann_start a = s" "ann_end a = e" for a
    using get_overlaps_append_same [OF assms(2,1) that] .
  show ?thesis
    by (simp add: Let_def second ov set_unique_list distinct_unique_list Un_commute)
qed

theorem merge_strict_identical_spans_witness:
  "annotate 0 1 (SuggList [''x'', ''y'']) None MERGE_STRICT
     (state_of (annotate 0 1 (SuggList [''y'', ''z'']) None ERROR
        \<lparr>tokens = [''a'', ''b''], annotations = []\<rparr>))
   = Done \<lparr>tokens = [''a'', ''b''],
           annotations = [\<lparr>ann_start = 0, ann_end = 1, source_text = ''a'',
                            suggestions = [''y'', ''z'', ''x''], meta = []\<rparr>]\<rparr>"
  using merge_strict_identical_spans [of 0 1 "\<lparr>tokens = [''a'', ''b''], annotations = []\<rparr>"
      "SuggList [''y'', ''z'']" "SuggList [''x'', ''y'']" None None ERROR]
  by (simp add: get_overlaps_def Let_def suggestions_of_def meta_of_def unique_list_def
      dict_merge_def py_slice_def clamp_index_def)

section \<open>Buffer combination\<close>

lemma annotate_save_old_overlap:
  "start \<le> en \<Longrightarrow> get_overlaps self start en \<noteq> [] \<Longrightarrow>
   annotate start en correct meta_arg SAVE_OLD self = Done self"
  by (simp add: annotate.simps Let_def)

lemma inserted_same_tokens [simp]:
  "inserted (self\<lparr>annotations := anns\<rparr>) = inserted self"
  by (rule ext) (simp add: inserted_def)

lemma annotate_inserts:
  assumes "ann_start a \<le> ann_end a" "get_overlaps self (ann_start a) (ann_end a) = []"
  shows "annotate (ann_start a) (ann_end a) (SuggList (suggestions a)) (Some (meta a)) policy self
           = Done (self\<lparr>annotations := annotations self @ [inserted self a]\<rparr>)"
  using annotate_no_overlap [OF assms]
  by (simp add: inserted_def suggestions_of_def meta_of_def)

lemma combine_loop_append:
  "combine_loop policy (xs @ ys) self =
     (case combine_loop policy xs self of
        Raised e s \<Rightarrow> Raised e s
      | Done s \<Rightarrow> combine_loop policy ys s)"
  by (induction xs arbitrary: self) (simp_all split: outcome.splits)

lemma combine_loop_all_inserted:
  assumes "\<forall>i < length anns. ann_start (anns ! i) \<le> ann_end (anns ! i)
             \<and> get_overlaps (self\<lparr>annotations := annotations self @ map (inserted self) (take i anns)\<rparr>)
                  (ann_start (anns ! i)) (ann_end (anns ! i)) = []"
  shows "combine_loop policy anns self
           = Done (self\<lparr>annotations := annotations self @ map (inserted self) anns\<rparr>)"
  using assms
proof (induction anns arbitrary: self)
  case Nil
  then show ?case by simp
next
  case (Cons a anns)
  from Cons.prems have "ann_start ((a # anns) ! 0) \<le> ann_end ((a # anns) ! 0)
             \<and> get_overlaps (self\<lparr>annotations := annotations self @ map (inserted self) (take 0 (a # anns))\<rparr>)
                  (ann_start ((a # anns) ! 0)) (ann_end ((a # anns) ! 0)) = []"
    by blast
  then have a: "ann_start a \<le> ann_end a" "get_overlaps self (ann_start a) (ann_end a) = []"
    by simp_all
  let ?s = "self\<lparr>annotations := annotations self @ [inserted self a]\<rparr>"
  have st: "annotate (ann_start a) (ann_end a) (SuggList (suggestions a)) (Some (meta a)) policy self
           = Done ?s"
    using a by (rule annotate_inserts)
  have "\<forall>i < length anns. ann_start (anns ! i) \<le> ann_end (anns ! i)
             \<and> get_overlaps (?s\<lparr>annotations := annotations ?s @ map (inserted ?s) (take i anns)\<rparr>)
                  (ann_start (anns ! i)) (ann_end (anns ! i)) = []"
  proof (intro allI impI)
    fix i assume "i < length anns"
    then have "Suc i < length (a # anns)" by simp
    with Cons.prems have "ann_start ((a # anns) ! Suc i) \<le> ann_end ((a # anns) ! Suc i)
             \<and> get_overlaps (self\<lparr>annotations := annotations self @ map (inserted self) (take (Suc i) (a # anns))\<rparr>)
                  (ann_start ((a # anns) ! Suc i)) (ann_end ((a # anns) ! Suc i)) = []"
      by blast
    then show "ann_start (anns ! i) \<le> ann_end (anns ! i)
             \<and> get_overlaps (?s\<lparr>annotations := annotations ?s @ map (inserted ?s) (take i anns)\<rparr>)
                  (ann_start (anns ! i)) (ann_end (anns ! i)) = []"
      by simp
  qed
  from Cons.IH [OF this] st show ?case by simp
qed

lemma combine_loop_first_overlap:
  assumes "\<forall>i < length pre. ann_start (pre ! i) \<le> ann_end (pre ! i)
             \<and> get_overlaps (self\<lparr>annotations := annotations self @ map (inserted self) (take i pre)\<rparr>)
                  (ann_start (pre ! i)) (ann_end (pre ! i)) = []"
    and "ann_start a \<le> ann_end a"
    and "get_overlaps (self\<lparr>annotations := annotations self @ map (inserted self) pre\<rparr>)
           (ann_start a) (ann_end a) \<noteq> []"
  shows "combine_loop ERROR (pre @ a # post) self
           = Raised OverlapError (self\<lparr>annotations := annotations self @ map (inserted self) pre\<rparr>)"
  using combine_loop_all_inserted [OF assms(1), of ERROR] annotate_error_overlap [OF assms(2,3)]
  by (simp add: combine_loop_append)

lemma combine_loop_discards:
  assumes "combine_loop SAVE_OLD pre self = Done mid"
    and "ann_start a \<le> ann_end a"
    and "get_overlaps mid (ann_start a) (ann_end a) \<noteq> []"
  shows "combine_loop SAVE_OLD (pre @ a # post) self = combine_loop SAVE_OLD (pre @ post) self"
  using assms(1) annotate_save_old_overlap [OF assms(2,3)]
  by (simp add: combine_loop_append)

lemma annotate_save_old_cases:
  assumes "ann_start a \<le> ann_end a"
  shows "annotate (ann_start a) (ann_end a) (SuggList (suggestions a)) (Some (meta a)) SAVE_OLD self
           = Done self
       \<or> annotate (ann_start a) (ann_end a) (SuggList (suggestions a)) (Some (meta a)) SAVE_OLD self
           = Done (self\<lparr>annotations := annotations self @ [inserted self a]\<rparr>)"
proof (cases "get_overlaps self (ann_start a) (ann_end a) = []")
  case True
  from annotate_inserts [OF assms True] show ?thesis by simp
next
  case False
  from annotate_save_old_overlap [OF assms False] show ?thesis by simp
qed

lemma combine_loop_keeps:
  "\<forall>a \<in> set anns. ann_start a \<le> ann_end a \<Longrightarrow>
   \<exists>added. combine_loop SAVE_OLD anns self = Done (self\<lparr>annotations := annotations self @ added\<rparr>)
         \<and> set added \<subseteq> inserted self ` set anns"
proof (induction anns arbitrary: self)
  case Nil
  have "combine_loop SAVE_OLD [] self = Done (self\<lparr>annotations := annotations self @ []\<rparr>)
      \<and> set [] \<subseteq> inserted self ` set []"
    by simp
  then show ?case by blast
next
  case (Cons a anns)
  then have w: "ann_start a \<le> ann_end a" by simp
  from Cons.prems have r: "\<forall>a \<in> set anns. ann_start a \<le> ann_end a" by simp
  from annotate_save_old_cases [OF w, of self] obtain added1 where
    s1: "annotate (ann_start a) (ann_end a) (SuggList (suggestions a)) (Some (meta a)) SAVE_OLD self
           = Done (self\<lparr>annotations := annotations self @ added1\<rparr>)"
    and a1: "set added1 \<subseteq> {inserted self a}"
  proof
    assume "annotate (ann_start a) (ann_end a) (SuggList (suggestions a)) (Some (meta a)) SAVE_OLD self
           = Done self"
    then have "annotate (ann_start a) (ann_end a) (SuggList (suggestions a)) (Some (meta a)) SAVE_OLD self
           = Done (self\<lparr>annotations := annotations self @ []\<rparr>)" by simp
    then show thesis using that [of "[]"] by simp
  next
    assume "annotate (ann_start a) (ann_end a) (SuggList (suggestions a)) (Some (meta a)) SAVE_OLD self
           = Done (self\<lparr>annotations := annotations self @ [inserted self a]\<rparr>)"
    then show thesis using that [of "[inserted self a]"] by simp
  qed
  let ?s = "self\<lparr>annotations := annotations self @ added1\<rparr>"
  from Cons.IH [OF r, of ?s] obtain added2 where
    s2: "combine_loop SAVE_OLD anns ?s = Done (?s\<lparr>annotations := annotations ?s @ added2\<rparr>)"
    and a2: "set added2 \<subseteq> inserted ?s ` set anns"
    by blast
  have "combine_loop SAVE_OLD (a # anns) self
          = Done (self\<lparr>annotations := annotations self @ (added1 @ added2)\<rparr>)
      \<and> set (added1 @ added2) \<subseteq> inserted self ` set (a # anns)"
    using s1 s2 a1 a2 by auto
  then show ?case by blast
qed


lemma combine_unfold:
  "get_original_text self = get_original_text other \<Longrightarrow>
   combine other discard_overlap self =
     combine_loop (if discard_overlap then SAVE_OLD else ERROR) (annotations other) self"
  by (simp add: combine_def get_annotations_def)

lemma original_text_same [simp]:
  "get_original_text (other\<lparr>annotations := anns\<rparr>) = get_original_text other"
  by (simp add: get_original_text_def get_original_tokens_def)

text \<open>
  Claim C5, as stated, fails: \<open>combine\<close> compares the space-joined original texts, not
  the token lists. The buffers over \<open>['a b']\<close> and over \<open>['a', 'b']\<close> have different token
  lists and the same text, and \<open>combine\<close> returns with the annotation inserted.
\<close>

theorem combine_mismatch_counterexample:
  "get_original_tokens \<lparr>tokens = [''a b''], annotations = []\<rparr>
     \<noteq> get_original_tokens
         \<lparr>tokens = [''a'', ''b''],
          annotations = [\<lparr>ann_start = 0, ann_end = 1, source_text = ''a'',
                           suggestions = [''x''], meta = []\<rparr>]\<rparr>
   \<and> combine
         \<lparr>tokens = [''a'', ''b''],
          annotations = [\<lparr>ann_start = 0, ann_end = 1, source_text = ''a'',
                           suggestions = [''x''], meta = []\<rparr>]\<rparr>
         True \<lparr>tokens = [''a b''], annotations = []\<rparr>
       = Done \<lparr>tokens = [''a b''],
                annotations = [\<lparr>ann_start = 0, ann_end = 1, source_text = ''a b'',
                                 suggestions = [''x''], meta = []\<rparr>]\<rparr>"
  by (simp add: combine_def get_original_text_def get_original_tokens_def get_annotations_def
      annotate.simps get_overlaps_def Let_def suggestions_of_def meta_of_def py_slice_def
      clamp_index_def)

text \<open>
  Claim C5, amended. \<open>combine\<close> raises \<open>MismatchError\<close> and leaves the buffer unchanged
  whenever the space-joined original texts differ. When the texts are equal it inserts the
  annotations of the other buffer in order, under \<open>save_old\<close> if \<open>discard_overlap\<close> and
  under \<open>error\<close> otherwise:
  \<^item> when each annotation of the other buffer has a well-formed span that overlaps
    nothing in the buffer as it stands when its turn comes, all of them are appended, in
    order, after the annotations of the buffer;
  \<^item> under \<open>error\<close>, the first annotation that meets an overlap makes the call raise
    \<open>OverlapError\<close>, the annotations before it inserted;
  \<^item> under \<open>save_old\<close>, an annotation that meets an overlap is dropped: the call does
    what it does on the other buffer without that annotation;
  \<^item> under \<open>save_old\<close> (every span of the other buffer well formed) the call returns,
    the annotations of the buffer are kept, in place, and what is added after them comes
    from the other buffer.
\<close>

theorem combine_by_text:
  "(get_original_text self \<noteq> get_original_text other \<longrightarrow>
      combine other discard_overlap self = Raised MismatchError self)
   \<and> (get_original_text self = get_original_text other
        \<and> (\<forall>i < length (annotations other).
              ann_start (annotations other ! i) \<le> ann_end (annotations other ! i)
            \<and> get_overlaps
                (self\<lparr>annotations := annotations self
                         @ map (inserted self) (take i (annotations other))\<rparr>)
                (ann_start (annotations other ! i)) (ann_end (annotations other ! i)) = []) \<longrightarrow>
      combine other discard_overlap self =
        Done (self\<lparr>annotations := annotations self @ map (inserted self) (annotations other)\<rparr>))
   \<and> (get_original_text self = get_original_text other \<and> \<not> discard_overlap
        \<and> annotations other = pre @ a # post
        \<and> (\<forall>i < length pre.
              ann_start (pre ! i) \<le> ann_end (pre ! i)
            \<and> get_overlaps
                (self\<lparr>annotations := annotations self @ map (inserted self) (take i pre)\<rparr>)
                (ann_start (pre ! i)) (ann_end (pre ! i)) = [])
        \<and> ann_start a \<le> ann_end a
        \<and> get_overlaps (self\<lparr>annotations := annotations self @ map (inserted self) pre\<rparr>)
             (ann_start a) (ann_end a) \<noteq> [] \<longrightarrow>
      combine other discard_overlap self =
        Raised OverlapError (self\<lparr>annotations := annotations self @ map (inserted self) pre\<rparr>))
   \<and> (get_original_text self = get_original_text other \<and> discard_overlap
        \<and> annotations other = pre @ a # post
        \<and> ann_start a \<le> ann_end a
        \<and> combine (other\<lparr>annotations := pre\<rparr>) discard_overlap self = Done mid
        \<and> get_overlaps mid (ann_start a) (ann_end a) \<noteq> [] \<longrightarrow>
      combine other discard_overlap self =
        combine (other\<lparr>annotations := pre @ post\<rparr>) discard_overlap self)
   \<and> (get_original_text self = get_original_text other \<and> discard_overlap
        \<and> (\<forall>b \<in> set (annotations other). ann_start b \<le> ann_end b) \<longrightarrow>
      (\<exists>added. combine other discard_overlap self
                 = Done (self\<lparr>annotations := annotations self @ added\<rparr>)
             \<and> set added \<subseteq> inserted self ` set (annotations other)))"
proof (intro conjI impI)
  assume "get_original_text self \<noteq> get_original_text other"
  then show "combine other discard_overlap self = Raised MismatchError self"
    by (simp add: combine_def)
next
  assume h: "get_original_text self = get_original_text other
        \<and> (\<forall>i < length (annotations other).
              ann_start (annotations other ! i) \<le> ann_end (annotations other ! i)
            \<and> get_overlaps
                (self\<lparr>annotations := annotations self
                         @ map (inserted self) (take i (annotations other))\<rparr>)
                (ann_start (annotations other ! i)) (ann_end (annotations other ! i)) = [])"
  then have "combine_loop (if discard_overlap then SAVE_OLD else ERROR) (annotations other) self
      = Done (self\<lparr>annotations := annotations self @ map (inserted self) (annotations other)\<rparr>)"
    by (intro combine_loop_all_inserted) simp
  with h show "combine other discard_overlap self =
        Done (self\<lparr>annotations := annotations self @ map (inserted self) (annotations other)\<rparr>)"
    by (simp add: combine_unfold)
next
  assume h: "get_original_text self = get_original_text other \<and> \<not> discard_overlap
        \<and> annotations other = pre @ a # post
        \<and> (\<forall>i < length pre.
              ann_start (pre ! i) \<le> ann_end (pre ! i)
            \<and> get_overlaps
                (self\<lparr>annotations := annotations self @ map (inserted self) (take i pre)\<rparr>)
                (ann_start (pre ! i)) (ann_end (pre ! i)) = [])
        \<and> ann_start a \<le> ann_end a
        \<and> get_overlaps (self\<lparr>annotations := annotations self @ map (inserted self) pre\<rparr>)
             (ann_start a) (ann_end a) \<noteq> []"
  then have "combine_loop ERROR (pre @ a # post) self
           = Raised OverlapError (self\<lparr>annotations := annotations self @ map (inserted self) pre\<rparr>)"
    by (intro combine_loop_first_overlap) simp_all
  with h show "combine other discard_overlap self =
        Raised OverlapError (self\<lparr>annotations := annotations self @ map (inserted self) pre\<rparr>)"
    by (simp add: combine_unfold)
next
  assume h: "get_original_text self = get_original_text other \<and> discard_overlap
        \<and> annotations other = pre @ a # post
        \<and> ann_start a \<le> ann_end a
        \<and> combine (other\<lparr>annotations := pre\<rparr>) discard_overlap self = Done mid
        \<and> get_overlaps mid (ann_start a) (ann_end a) \<noteq> []"
  then have t: "get_original_text self = get_original_text (other\<lparr>annotations := pre\<rparr>)"
    by simp
  from h have d: "discard_overlap"
    and c: "combine (other\<lparr>annotations := pre\<rparr>) discard_overlap self = Done mid"
    by blast+
  from d have "discard_overlap = True" by simp
  with c have "combine (other\<lparr>annotations := pre\<rparr>) True self = Done mid" by simp
  with combine_unfold [OF t, of True] have "combine_loop SAVE_OLD pre self = Done mid"
    by simp
  with h have "combine_loop SAVE_OLD (pre @ a # post) self = combine_loop SAVE_OLD (pre @ post) self"
    by (intro combine_loop_discards [of pre self mid]) simp_all
  with h show "combine other discard_overlap self =
        combine (other\<lparr>annotations := pre @ post\<rparr>) discard_overlap self"
    by (simp add: combine_unfold)
next
  assume h: "get_original_text self = get_original_text other \<and> discard_overlap
        \<and> (\<forall>b \<in> set (annotations other). ann_start b \<le> ann_end b)"
  then have "\<forall>b \<in> set (annotations other). ann_start b \<le> ann_end b" by simp
  from combine_loop_keeps [OF this, of self] h
  show "\<exists>added. combine other discard_overlap self
                 = Done (self\<lparr>annotations := annotations self @ added\<rparr>)
             \<and> set added \<subseteq> inserted self ` set (annotations other)"
    by (simp add: combine_unfold)
qed


theorem combine_by_text_witness:
  "combine \<lparr>tokens = [''a'', ''b'', ''d''], annotations = []\<rparr> True
      \<lparr>tokens = [''a'', ''b'', ''c''],
       annotations = [\<lparr>ann_start = 0, ann_end = 1, source_text = ''a'',
                        suggestions = [''A''], meta = []\<rparr>]\<rparr>
     = Raised MismatchError
         \<lparr>tokens = [''a'', ''b'', ''c''],
          annotations = [\<lparr>ann_start = 0, ann_end = 1, source_text = ''a'',
                           suggestions = [''A''], meta = []\<rparr>]\<rparr>
   \<and> combine
        \<lparr>tokens = [''a'', ''b'', ''c''],
         annotations = [\<lparr>ann_start = 1, ann_end = 2, source_text = ''b'',
                          suggestions = [''B''], meta = []\<rparr>,
                        \<lparr>ann_start = 2, ann_end = 3, source_text = ''c'',
                          suggestions = [''C''], meta = []\<rparr>]\<rparr> False
        \<lparr>tokens = [''a'', ''b'', ''c''],
         annotations = [\<lparr>ann_start = 0, ann_end = 1, source_text = ''a'',
                          suggestions = [''A''], meta = []\<rparr>]\<rparr>
     = Done
         \<lparr>tokens = [''a'', ''b'', ''c''],
          annotations = [\<lparr>ann_start = 0, ann_end = 1, source_text = ''a'',
                           suggestions = [''A''], meta = []\<rparr>,
                         \<lparr>ann_start = 1, ann_end = 2, source_text = ''b'',
                           suggestions = [''B''], meta = []\<rparr>,
                         \<lparr>ann_start = 2, ann_end = 3, source_text = ''c'',
                           suggestions = [''C''], meta = []\<rparr>]\<rparr>
   \<and> combine
        \<lparr>tokens = [''a'', ''b'', ''c''],
         annotations = [\<lparr>ann_start = 1, ann_end = 2, source_text = ''b'',
                          suggestions = [''B''], meta = []\<rparr>,
                        \<lparr>ann_start = 0, ann_end = 2, source_text = ''a b'',
                          suggestions = [''X''], meta = []\<rparr>,
                        \<lparr>ann_start = 2, ann_end = 3, source_text = ''c'',
                          suggestions = [''C''], meta = []\<rparr>]\<rparr> False
        \<lparr>tokens = [''a'', ''b'', ''c''],
         annotations = [\<lparr>ann_start = 0, ann_end = 1, source_text = ''a'',
                          suggestions = [''A''], meta = []\<rparr>]\<rparr>
     = Raised OverlapError
         \<lparr>tokens = [''a'', ''b'', ''c''],
          annotations = [\<lparr>ann_start = 0, ann_end = 1, source_text = ''a'',
                           suggestions = [''A''], meta = []\<rparr>,
                         \<lparr>ann_start = 1, ann_end = 2, source_text = ''b'',
                           suggestions = [''B''], meta = []\<rparr>]\<rparr>
   \<and> combine
        \<lparr>tokens = [''a'', ''b'', ''c''],
         annotations = [\<lparr>ann_start = 1, ann_end = 2, source_text = ''b'',
                          suggestions = [''B''], meta = []\<rparr>,
                        \<lparr>ann_start = 0, ann_end = 2, source_text = ''a b'',
                          suggestions = [''X''], meta = []\<rparr>,
                        \<lparr>ann_start = 2, ann_end = 3, source_text = ''c'',
                          suggestions = [''C''], meta = []\<rparr>]\<rparr> True
        \<lparr>tokens = [''a'', ''b'', ''c''],
         annotations = [\<lparr>ann_start = 0, ann_end = 1, source_text = ''a'',
                          suggestions = [''A''], meta = []\<rparr>]\<rparr>
     = Done
         \<lparr>tokens = [''a'', ''b'', ''c''],
          annotations = [\<lparr>ann_start = 0, ann_end = 1, source_text = ''a'',
                           suggestions = [''A''], meta = []\<rparr>,
                         \<lparr>ann_start = 1, ann_end = 2, source_text = ''b'',
                           suggestions = [''B''], meta = []\<rparr>,
                         \<lparr>ann_start = 2, ann_end = 3, source_text = ''c'',
                           suggestions = [''C''], meta = []\<rparr>]\<rparr>"
  (is "combine ?O1 True ?S = Raised MismatchError ?S
     \<and> combine ?O2 False ?S = Done ?R
     \<and> combine ?O3 False ?S = Raised OverlapError ?M
     \<and> combine ?O3 True ?S = Done ?R")
proof -
  let ?b = "\<lparr>ann_start = 1, ann_end = 2, source_text = ''b'', suggestions = [''B''], meta = []\<rparr>"
  let ?x = "\<lparr>ann_start = 0, ann_end = 2, source_text = ''a b'', suggestions = [''X''], meta = []\<rparr>"
  let ?c = "\<lparr>ann_start = 2, ann_end = 3, source_text = ''c'', suggestions = [''C''], meta = []\<rparr>"
  note ev = get_original_text_def get_original_tokens_def get_overlaps_def span_intersect_def
    strictly_inside_def inserted_def py_slice_def clamp_index_def All_less_Suc
  have w1: "combine ?O1 True ?S = Raised MismatchError ?S"
    using combine_by_text [of ?S ?O1 True "[]" ?b "[]" ?S] by (simp add: ev)
  have w2: "combine ?O2 False ?S = Done ?R"
    using combine_by_text [of ?S ?O2 False "[]" ?b "[]" ?S] by (simp add: ev)
  have w3: "combine ?O3 False ?S = Raised OverlapError ?M"
    using combine_by_text [of ?S ?O3 False "[?b]" ?x "[?c]" ?S] by (simp add: ev)
  have w5: "combine ?O2 True ?S = Done ?R"
    using combine_by_text [of ?S ?O2 True "[]" ?b "[]" ?S] by (simp add: ev)
  have mid: "combine (?O3\<lparr>annotations := [?b]\<rparr>) True ?S = Done ?M"
    using combine_by_text [of ?S "?O3\<lparr>annotations := [?b]\<rparr>" True "[]" ?b "[]" ?S]
    by (simp add: ev)
  have "combine ?O3 True ?S = combine (?O3\<lparr>annotations := [?b] @ [?c]\<rparr>) True ?S"
    using combine_by_text [of ?S ?O3 True "[?b]" ?x "[?c]" ?M] mid by (simp add: ev)
  with w5 have w4: "combine ?O3 True ?S = Done ?R" by simp
  from w1 w2 w3 w4 show ?thesis by blast
qed

section \<open>Safe iteration\<close>


lemma payload_shift_from [simp]: "payload (shift_from pos delta a) = payload a"
  by (simp add: payload_def shift_from_def)









section \<open>Alignment example and rendering\<close>



lemma to_str_examples:
  "to_str True \<lparr>ann_start = 0, ann_end = 1, source_text = ''a'', suggestions = [''b'', ''c''],
                meta = [(''k1'', ''v1''), (''k2'', ''v2'')]\<rparr> = ''{a=>b|c:::k1=v1:::k2=v2}''"
  "to_str False \<lparr>ann_start = 0, ann_end = 1, source_text = ''a'', suggestions = [''b'', ''c''],
                meta = [(''k1'', ''v1''), (''k2'', ''v2'')]\<rparr> = ''{a=>b|c}''"
  "to_str True \<lparr>ann_start = 0, ann_end = 1, source_text = ''a'', suggestions = [],
                meta = []\<rparr> = ''{a=>NO_SUGGESTIONS}''"
  by code_simp+













section \<open>Alignment of a sequence with itself\<close>

lemma b2j_inv_step:
  assumes "b2j_inv full i m"
  shows "b2j_inv full (Suc i)
           (m(full ! i \<mapsto> (case m (full ! i) of None \<Rightarrow> [] | Some indices \<Rightarrow> indices) @ [i]))"
  unfolding b2j_inv_def
proof (intro allI)
  fix elt
  from assms have h: "case m elt of
              None \<Rightarrow> \<forall>j < i. full ! j \<noteq> elt
            | Some js \<Rightarrow> sorted_wrt (<) js \<and> set js = {j. j < i \<and> full ! j = elt}"
    by (simp add: b2j_inv_def)
  show "case (m(full ! i \<mapsto> (case m (full ! i) of None \<Rightarrow> [] | Some indices \<Rightarrow> indices) @ [i])) elt of
          None \<Rightarrow> \<forall>j < Suc i. full ! j \<noteq> elt
        | Some js \<Rightarrow> sorted_wrt (<) js \<and> set js = {j. j < Suc i \<and> full ! j = elt}"
  proof (cases "full ! i = elt")
    case True
    show ?thesis
    proof (cases "m elt")
      case None
      with h True show ?thesis by (auto simp: less_Suc_eq)
    next
      case (Some js)
      with h True show ?thesis by (auto simp: less_Suc_eq sorted_wrt_append)
    qed
  next
    case False
    with h show ?thesis by (auto simp: less_Suc_eq split: option.splits)
  qed
qed

lemma chain_b_loop_inv:
  "b2j_inv (pre @ xs) (length pre) m \<Longrightarrow>
   b2j_inv (pre @ xs) (length pre + length xs) (chain_b_loop (length pre) xs m)"
proof (induction xs arbitrary: pre m)
  case Nil
  then show ?case by simp
next
  case (Cons x xs)
  from b2j_inv_step [OF Cons.prems]
  have "b2j_inv ((pre @ [x]) @ xs) (length (pre @ [x]))
          (m(x \<mapsto> (case m x of None \<Rightarrow> [] | Some indices \<Rightarrow> indices) @ [length pre]))"
    by simp
  from Cons.IH [OF this] show ?case by (simp add: fun_upd_def)
qed

lemma chain_b_props:
  assumes "chain_b S elt = Some js"
  shows "sorted_wrt (<) js \<and> set js = {j. j < length S \<and> S ! j = elt}"
proof -
  have "b2j_inv ([] @ S) (length ([] :: 'a list)) Map.empty"
    by (simp add: b2j_inv_def)
  from chain_b_loop_inv [OF this]
  have inv: "b2j_inv S (length S) (chain_b_loop 0 S Map.empty)" by simp
  from assms have "chain_b_loop 0 S Map.empty elt = Some js"
    by (auto simp: chain_b_def Let_def split: if_splits option.splits)
  with inv show ?thesis by (auto simp: b2j_inv_def split: option.splits)
qed

lemma diag_run_le: "diag_run b2j S i \<le> Suc i"
  by (induction i) auto

lemma diag_run_popular: "b2j (S ! r) = None \<Longrightarrow> diag_run b2j S r = 0"
  by (cases r) simp_all

lemma diag_run_pos: "b2j (S ! j) \<noteq> None \<Longrightarrow> 1 \<le> diag_run b2j S j"
  by (cases j) simp_all

lemma kval_bounds:
  assumes "prev_ok b2j S r j2len" and "b2j (S ! r) \<noteq> None" and "S ! j = S ! r"
  shows "kval j2len j \<le> diag_run b2j S r \<and> kval j2len j \<le> diag_run b2j S j
         \<and> (j = r \<longrightarrow> kval j2len j = diag_run b2j S r)"
proof (cases r)
  case 0
  with assms(1) have "j2len = Map.empty" by (simp add: prev_ok_def)
  then have "kval j2len j = 1" by (simp add: kval_def)
  moreover have "b2j (S ! j) \<noteq> None" using assms(2,3) by simp
  ultimately show ?thesis using 0 assms(2) diag_run_pos [of b2j S j] by auto
next
  case (Suc i)
  with assms(1) have ri: "row_inv b2j S i j2len" by (simp add: prev_ok_def)
  have nj: "b2j (S ! j) \<noteq> None" using assms(2,3) by simp
  have Dr: "diag_run b2j S r = Suc (diag_run b2j S i)" using Suc assms(2) by simp
  show ?thesis
  proof (cases j)
    case 0
    then have "kval j2len j = 1" by (simp add: kval_def)
    with 0 Suc Dr nj show ?thesis by simp
  next
    case (Suc j')
    then have Dj: "diag_run b2j S j = Suc (diag_run b2j S j')" using nj by simp
    show ?thesis
    proof (cases "j2len j'")
      case None
      then have k: "kval j2len j = 1" using Suc by (simp add: kval_def)
      have "j = r \<Longrightarrow> diag_run b2j S i = 0"
      proof -
        assume "j = r"
        then have "j' = i" using Suc \<open>r = Suc i\<close> by simp
        with None ri have "b2j (S ! i) = None" by (auto simp: row_inv_def)
        then show ?thesis by (rule diag_run_popular)
      qed
      with k Dr Dj show ?thesis by auto
    next
      case (Some v)
      then have k: "kval j2len j = Suc v" using Suc by (simp add: kval_def)
      from Some ri have b: "v \<le> diag_run b2j S i" "v \<le> diag_run b2j S j'"
        by (auto simp: row_inv_def)
      have "j = r \<Longrightarrow> v = diag_run b2j S i"
      proof -
        assume "j = r"
        then have ji: "j' = i" using Suc \<open>r = Suc i\<close> by simp
        show ?thesis
        proof (cases "b2j (S ! i) = None")
          case True
          then have "diag_run b2j S i = 0" by (rule diag_run_popular)
          with b show ?thesis by simp
        next
          case False
          with ri have "j2len i = Some (diag_run b2j S i)" by (simp add: row_inv_def)
          with Some ji show ?thesis by simp
        qed
      qed
      with k b Dr Dj show ?thesis by auto
    qed
  qed
qed

lemma flm_inner_step:
  "j < n \<Longrightarrow>
   flm_inner r 0 n j2len (j # js) new (bi, bj, sz) =
     (if kval j2len j > sz
        then flm_inner r 0 n j2len js (new(j \<mapsto> kval j2len j))
               (r + 1 - kval j2len j, j + 1 - kval j2len j, kval j2len j)
      else flm_inner r 0 n j2len js (new(j \<mapsto> kval j2len j)) (bi, bj, sz))"
  by (simp add: Let_def kval_def)

lemma flm_inner_inv:
  fixes D :: "nat \<Rightarrow> nat"
  assumes "\<forall>j \<in> set js. j < n \<and> kval j2len j \<le> D r \<and> kval j2len j \<le> D j
             \<and> (j = r \<longrightarrow> kval j2len j = D r)"
    and "sorted_wrt (<) js"
    and "D r \<le> Suc r"
    and "\<forall>j v. new j = Some v \<longrightarrow> v \<le> D r \<and> v \<le> D j"
    and "bi + sz \<le> Suc r"
    and "\<forall>p < r. D p \<le> sz"
    and "r \<in> set js \<or> (new r = Some (D r) \<and> D r \<le> sz)"
  shows "\<exists>new' bi' sz'.
           flm_inner r 0 n j2len js new (bi, bi, sz) = (new', (bi', bi', sz'))
         \<and> bi' + sz' \<le> Suc r
         \<and> (\<forall>p < r. D p \<le> sz')
         \<and> (\<forall>j v. new' j = Some v \<longrightarrow> v \<le> D r \<and> v \<le> D j)
         \<and> new' r = Some (D r) \<and> D r \<le> sz'"
  using assms
proof (induction js arbitrary: new bi sz)
  case Nil
  then show ?case by simp
next
  case (Cons j js)
  let ?k = "kval j2len j"
  from Cons.prems(1) have jn: "j < n" and k1: "?k \<le> D r" and k2: "?k \<le> D j"
    and k3: "j = r \<longrightarrow> ?k = D r" by simp_all
  from Cons.prems(1) have tl1: "\<forall>j \<in> set js. j < n \<and> kval j2len j \<le> D r \<and> kval j2len j \<le> D j
             \<and> (j = r \<longrightarrow> kval j2len j = D r)" by simp
  from Cons.prems(2) have tl2: "sorted_wrt (<) js" and above: "\<forall>x \<in> set js. j < x" by simp_all
  have newinv: "\<forall>ja v. (new(j \<mapsto> ?k)) ja = Some v \<longrightarrow> v \<le> D r \<and> v \<le> D ja"
    using Cons.prems(4) k1 k2 by auto
  show ?case
  proof (cases "?k > sz")
    case True
    have jr: "j = r"
    proof (rule ccontr)
      assume ne: "j \<noteq> r"
      show False
      proof (cases "j < r")
        case True
        with Cons.prems(6) have "D j \<le> sz" by simp
        with k2 \<open>?k > sz\<close> show False by simp
      next
        case False
        with ne have "r < j" by simp
        with above have "r \<notin> set (j # js)" by auto
        with Cons.prems(7) have "D r \<le> sz" by simp
        with k1 \<open>?k > sz\<close> show False by simp
      qed
    qed
    with k3 have kD: "?k = D r" by simp
    have st: "flm_inner r 0 n j2len (j # js) new (bi, bi, sz)
                = flm_inner r 0 n j2len js (new(j \<mapsto> ?k)) (r + 1 - ?k, r + 1 - ?k, ?k)"
      using True jn jr flm_inner_step [of j n r j2len js new bi bi sz]
      by (simp del: flm_inner.simps)
    have b1: "(r + 1 - ?k) + ?k \<le> Suc r" using kD Cons.prems(3) by simp
    have b2: "\<forall>p < r. D p \<le> ?k" using Cons.prems(6) True by auto
    have b3: "r \<in> set js \<or> ((new(j \<mapsto> ?k)) r = Some (D r) \<and> D r \<le> ?k)"
      using jr kD by simp
    show ?thesis unfolding st by (rule Cons.IH [OF tl1 tl2 Cons.prems(3) newinv b1 b2 b3])
  next
    case False
    have st: "flm_inner r 0 n j2len (j # js) new (bi, bi, sz)
                = flm_inner r 0 n j2len js (new(j \<mapsto> ?k)) (bi, bi, sz)"
      using False jn flm_inner_step [of j n r j2len js new bi bi sz]
      by (simp del: flm_inner.simps)
    have b3: "r \<in> set js \<or> ((new(j \<mapsto> ?k)) r = Some (D r) \<and> D r \<le> sz)"
    proof (cases "j = r")
      case True
      with k3 False show ?thesis by simp
    next
      case False
      with Cons.prems(7) show ?thesis by auto
    qed
    show ?thesis unfolding st
      by (rule Cons.IH [OF tl1 tl2 Cons.prems(3) newinv Cons.prems(5) Cons.prems(6) b3])
  qed
qed

lemma flm_outer_inv:
  assumes "n = length S"
    and "r \<le> n"
    and "prev_ok (chain_b S) S r j2len"
    and "bi + sz \<le> r"
    and "\<forall>p < r. diag_run (chain_b S) S p \<le> sz"
  shows "\<exists>bi' sz'. flm_outer S (chain_b S) 0 n [r..<n] j2len (bi, bi, sz) = (bi', bi', sz')
           \<and> bi' + sz' \<le> n"
  using assms(2-5)
proof (induction "n - r" arbitrary: r j2len bi sz)
  case 0
  then have "r = n" by simp
  with 0 show ?case by simp
next
  case (Suc d)
  let ?b2j = "chain_b S"
  let ?D = "diag_run ?b2j S"
  from Suc.hyps(2) have rn: "r < n" by simp
  then have upt: "[r..<n] = r # [Suc r..<n]" by (simp add: upt_conv_Cons)
  have d: "d = n - Suc r" using Suc.hyps(2) by simp
  have le: "Suc r \<le> n" using rn by simp
  show ?case
  proof (cases "?b2j (S ! r)")
    case None
    have pk: "prev_ok ?b2j S (Suc r) Map.empty"
      using None by (simp add: prev_ok_def row_inv_def)
    have b: "bi + sz \<le> Suc r" using Suc.prems(3) by simp
    have "?D r = 0" using None by (rule diag_run_popular)
    with Suc.prems(4) have p: "\<forall>p < Suc r. ?D p \<le> sz" by (simp add: less_Suc_eq)
    from Suc.hyps(1) [OF d le pk b p] show ?thesis
      using None by (simp add: upt)
  next
    case (Some js)
    from chain_b_props [OF Some] have srt: "sorted_wrt (<) js"
      and sj: "set js = {j. j < length S \<and> S ! j = S ! r}" by simp_all
    have ne: "?b2j (S ! r) \<noteq> None" using Some by simp
    have p1: "\<forall>j \<in> set js. j < n \<and> kval j2len j \<le> ?D r \<and> kval j2len j \<le> ?D j
             \<and> (j = r \<longrightarrow> kval j2len j = ?D r)"
    proof
      fix j assume "j \<in> set js"
      with sj have jn: "j < length S" and e: "S ! j = S ! r" by simp_all
      from kval_bounds [OF Suc.prems(2) ne e] jn assms(1)
      show "j < n \<and> kval j2len j \<le> ?D r \<and> kval j2len j \<le> ?D j
             \<and> (j = r \<longrightarrow> kval j2len j = ?D r)" by simp
    qed
    have p3: "?D r \<le> Suc r" by (rule diag_run_le)
    have p4: "\<forall>j v. (Map.empty :: nat \<rightharpoonup> nat) j = Some v \<longrightarrow> v \<le> ?D r \<and> v \<le> ?D j" by simp
    have p5: "bi + sz \<le> Suc r" using Suc.prems(3) by simp
    have "r \<in> set js" using sj rn assms(1) by simp
    then have p7: "r \<in> set js \<or> ((Map.empty :: nat \<rightharpoonup> nat) r = Some (?D r) \<and> ?D r \<le> sz)" by simp
    from flm_inner_inv [of js n j2len ?D r Map.empty bi sz, OF p1 srt p3 p4 p5 Suc.prems(4) p7]
    obtain new' bi' sz' where
      st: "flm_inner r 0 n j2len js Map.empty (bi, bi, sz) = (new', (bi', bi', sz'))"
      and c1: "bi' + sz' \<le> Suc r"
      and c2: "\<forall>p < r. ?D p \<le> sz'"
      and c3: "\<forall>j v. new' j = Some v \<longrightarrow> v \<le> ?D r \<and> v \<le> ?D j"
      and c4: "new' r = Some (?D r)" and c5: "?D r \<le> sz'"
      by blast
    have pk: "prev_ok ?b2j S (Suc r) new'"
      using c3 c4 by (simp add: prev_ok_def row_inv_def)
    have p: "\<forall>p < Suc r. ?D p \<le> sz'" using c2 c5 by (simp add: less_Suc_eq)
    from Suc.hyps(1) [OF d le pk c1 p] show ?thesis
      using Some st by (simp add: upt)
  qed
qed

lemma extend_back_diag: "extend_back S S 0 0 (bi, bi, sz) = (0, 0, sz + bi)"
proof (induction bi arbitrary: sz)
  case 0
  show ?case by (simp add: extend_back.simps)
next
  case (Suc bi)
  have "extend_back S S 0 0 (Suc bi, Suc bi, sz) = extend_back S S 0 0 (bi, bi, sz + 1)"
    by (subst extend_back.simps) simp
  with Suc [of "sz + 1"] show ?case by simp
qed

lemma extend_forward_diag:
  "sz \<le> n \<Longrightarrow> extend_forward S S n n (0, 0, sz) = (0, 0, n)"
proof (induction "n - sz" arbitrary: sz)
  case 0
  then have "sz = n" by simp
  then show ?case by (simp add: extend_forward.simps)
next
  case (Suc d)
  then have lt: "sz < n" by simp
  then have "extend_forward S S n n (0, 0, sz) = extend_forward S S n n (0, 0, sz + 1)"
    by (subst extend_forward.simps) simp
  moreover have "extend_forward S S n n (0, 0, sz + 1) = (0, 0, n)"
    using Suc.hyps(2) lt by (intro Suc.hyps(1)) simp_all
  ultimately show ?case by simp
qed

lemma find_longest_match_self:
  "find_longest_match S S (chain_b S) 0 (length S) 0 (length S) = (0, 0, length S)"
proof -
  have "prev_ok (chain_b S) S 0 Map.empty" by (simp add: prev_ok_def)
  from flm_outer_inv [of "length S" S 0 Map.empty 0 0, OF refl _ this]
  obtain bi sz where
    o: "flm_outer S (chain_b S) 0 (length S) [0..<length S] Map.empty (0, 0, 0) = (bi, bi, sz)"
    and b: "bi + sz \<le> length S"
    by auto
  from b have "sz + bi \<le> length S" by simp
  then show ?thesis
    by (simp add: find_longest_match_def o extend_back_diag extend_forward_diag)
qed

lemma matching_loop_empty: "matching_loop a b b2j [] blocks = Some blocks"
  by (subst matching_loop.simps) simp

lemma matching_loop_self:
  "matching_loop S S (chain_b S) [(0, length S, 0, length S)] []
     = Some (if length S \<noteq> 0 then [(0, 0, length S)] else [])"
  by (subst matching_loop.simps) (simp add: find_longest_match_self matching_loop_empty)

lemma get_matching_blocks_self:
  "get_matching_blocks S S
     = Some (if length S \<noteq> 0 then [(0, 0, length S), (length S, length S, 0)] else [(0, 0, 0)])"
  by (simp add: get_matching_blocks_def Let_def matching_loop_self)

lemma get_opcodes_self:
  "get_opcodes S S = Some (if length S \<noteq> 0 then [(Equal, 0, length S, 0, length S)] else [])"
  by (simp add: get_opcodes_def get_matching_blocks_self Let_def)

lemma gen_diffs_self: "gen_diffs (Toks S) (Toks S) = Some []"
  by (simp add: gen_diffs_def get_tokens_def get_opcodes_self tag_of_def Let_def)

lemma py_slice_from_0: "py_slice_from S 0 = S"
  by (simp add: py_slice_from_def clamp_index_def)

text \<open>
  Claim C4. For every list of tokens \<open>S\<close>, \<open>align\<close> of \<open>S\<close> with itself returns, and what it
  returns is the buffer over \<open>S\<close> with no annotation; the corrected text of that buffer, at
  any level, is the tokens of \<open>S\<close> joined by single spaces.
\<close>

theorem align_identical:
  "align (Toks S) (Toks S) = Some (Done \<lparr>tokens = S, annotations = []\<rparr>)
   \<and> get_corrected_text level \<lparr>tokens = S, annotations = []\<rparr> = str_join '' '' S"
  by (simp add: align_def gen_diffs_self AnnotatedTokens_def Let_def get_corrected_text_def
      get_corrected_tokens_def MutableTokens_def get_edited_tokens_def py_slice_from_0)

end
